theory Spec2Isabelle
  imports Complex_Main "HOL-Library.AList" "HOL-Library.Word"
begin

section \<open>The file staging list and archive builder of \<open>FileUpload.tsx\<close>\<close>

text \<open>
  The component keeps three pieces of React state that matter here: \<open>files\<close>,
  \<open>isCreatingZip\<close> and \<open>zipProgress\<close>. Its handlers \<open>addFiles\<close>, \<open>removeFile\<close>,
  \<open>clearAllFiles\<close> and \<open>createZip\<close> are translated below as functions on a \<open>world\<close>
  record: the React state together with a log of every effect the handlers have on the
  browser (toasts, console output, object URLs created and revoked, downloads).

  \<open>createZip\<close> is asynchronous: it is suspended while \<open>generateAsync\<close> runs. The handlers
  that can run in the meantime write only \<open>files\<close> and the object URLs, which \<open>createZip\<close>
  never writes and reads once, when it is called; so a call is modelled as one step.
\<close>

subsection \<open>Data\<close>

type_synonym byte = "8 word"

text \<open>The browser's \<open>File\<close>: a name, a MIME type and the bytes; \<open>file.size\<close> is their number.\<close>

record File =
  name :: string
  type :: string
  bytes :: "byte list"

definition file_size :: "File \<Rightarrow> nat" where
  "file_size f = length (bytes f)"

text \<open>
  An object URL, as \<open>URL.createObjectURL\<close> returns it, is represented by its allocation
  number: the browser never returns the same URL twice, and never the empty string, so
  the test \<open>fileToRemove?.preview\<close> holds exactly when the entry has a preview.
\<close>

type_synonym url = nat

text \<open>\<open>interface FileItem { id: string; file: File; preview?: string }\<close>\<close>

record FileItem =
  item_id :: string
  item_file :: File
  preview :: "url option"

text \<open>A call of \<open>toast.success\<close> or \<open>toast.error\<close>, with its message.\<close>

datatype toast = ToastSuccess string | ToastError string

text \<open>A thrown value, by its message.\<close>

type_synonym exn = string

text \<open>
  Modelled from the spec: the \<open>jszip\<close> package is imported by the component and is not
  among the repository's sources. The spec's archive container is ``an in-memory structure
  accumulating named byte payloads before serialization''. JSZip keeps the payloads in an
  object keyed by entry name, so \<open>zip.file(name, data)\<close> under a name already present
  replaces that entry (in its place), and under a new name appends one. The names are
  \<open>File.name\<close> values, which hold no \<open>/\<close>; folders are not modelled.
\<close>

type_synonym JSZip = "(string \<times> File) list"

text \<open>
  Modelled from the spec: \<open>zip.file(name, data)\<close>, adding a payload under its name; a later
  addition under the same name replaces the earlier one.
\<close>

definition zip_file :: "string \<Rightarrow> File \<Rightarrow> JSZip \<Rightarrow> JSZip" where
  "zip_file nm data archive = AList.update nm data archive"

text \<open>
  Modelled from the spec: the blob that \<open>zip.generateAsync\<close> resolves to is represented by
  what an extractor reads back from it, the table of entry names and payloads, together
  with the compression method and level it was written with. The DEFLATE coding itself
  belongs to the library and is not modelled.
\<close>

record Blob =
  entries :: "(string \<times> byte list) list"
  compression :: string
  level :: nat

text \<open>Modelled from the spec: extracting the entry stored under a name.\<close>

definition extractEntry :: "Blob \<Rightarrow> string \<Rightarrow> byte list option" where
  "extractEntry b nm = map_of (entries b) nm"

text \<open>
  The clock reading of \<open>new Date()\<close>, by its UTC calendar fields (\<open>month\<close> and \<open>day\<close>
  count from 1, as \<open>toISOString\<close> prints them).
\<close>

record Date =
  year :: int
  month :: nat
  day :: nat
  hour :: nat
  minute :: nat
  second :: nat
  millis :: nat

text \<open>
  The component's state and what it has done to the browser so far: the values passed to
  \<open>setZipProgress\<close>, the toasts shown, the \<open>console.error\<close> calls, the \<open>saveAs\<close> calls
  (blob and file name), the number of random draws and of object URLs created, and the
  URLs passed to \<open>URL.revokeObjectURL\<close>; each log is in the order of the calls. A
  progress value is a JavaScript number, held as the rational number that the double is.
\<close>

record world =
  files :: "FileItem list"
  isCreatingZip :: bool
  zipProgress :: rat
  progressLog :: "rat list"
  toasts :: "toast list"
  consoleErrors :: "(string \<times> exn) list"
  downloads :: "(Blob \<times> string) list"
  randomCalls :: nat
  nextUrl :: url
  revoked :: "url list"

text \<open>
  What a build cannot decide by itself: whether \<open>zip.file\<close>, \<open>generateAsync\<close> or \<open>saveAs\<close>
  throw (an unreadable file makes \<open>generateAsync\<close> reject), and what the clock reads.
\<close>

record build_env =
  fileThrows :: "string \<Rightarrow> File \<Rightarrow> exn option"
  generateThrows :: "JSZip \<Rightarrow> exn option"
  saveAsThrows :: "Blob \<Rightarrow> string \<Rightarrow> exn option"
  clock :: Date

subsection \<open>Platform functions\<close>

definition startsWith :: "string \<Rightarrow> string \<Rightarrow> bool" where
  "startsWith s p = (take (length p) s = p)"

definition substring :: "nat \<Rightarrow> string \<Rightarrow> string" where
  "substring b s = drop b s"

definition slice :: "nat \<Rightarrow> nat \<Rightarrow> string \<Rightarrow> string" where
  "slice b e s = take (e - b) (drop b s)"

definition replaceAll :: "char \<Rightarrow> char \<Rightarrow> string \<Rightarrow> string" where
  "replaceAll c d s = map (\<lambda>x. if x = c then d else x) s"

definition digit :: "nat \<Rightarrow> char" where
  "digit d = ''0123456789'' ! (d mod 10)"

text \<open>\<open>dec w k\<close>: the decimal digits of \<open>k\<close> in a field of exactly \<open>w\<close> characters.\<close>

primrec dec :: "nat \<Rightarrow> nat \<Rightarrow> string" where
  "dec 0 k = []"
| "dec (Suc w) k = dec w (k div 10) @ [digit (k mod 10)]"

text \<open>The string of a non-negative integer in a template literal.\<close>

fun toString :: "nat \<Rightarrow> string" where
  "toString n = (if n < 10 then [digit n] else toString (n div 10) @ [digit (n mod 10)])"

declare toString.simps [simp del]

text \<open>
  \<open>Date.prototype.toISOString\<close>: \<open>YYYY-MM-DDTHH:mm:ss.sssZ\<close>, and for a year outside
  0..9999 the expanded form with a sign and six digits.
\<close>

definition toISOString :: "Date \<Rightarrow> string" where
  "toISOString d =
     (if 0 \<le> year d \<and> year d \<le> 9999 then dec 4 (nat (year d))
      else (if year d < 0 then ''-'' else ''+'') @ dec 6 (nat \<bar>year d\<bar>))
     @ ''-'' @ dec 2 (month d) @ ''-'' @ dec 2 (day d)
     @ ''T'' @ dec 2 (hour d) @ '':'' @ dec 2 (minute d) @ '':'' @ dec 2 (second d)
     @ ''.'' @ dec 3 (millis d) @ ''Z''"

definition toast_success :: "string \<Rightarrow> world \<Rightarrow> world" where
  "toast_success msg w = w\<lparr>toasts := toasts w @ [ToastSuccess msg]\<rparr>"

definition toast_error :: "string \<Rightarrow> world \<Rightarrow> world" where
  "toast_error msg w = w\<lparr>toasts := toasts w @ [ToastError msg]\<rparr>"

definition console_error :: "string \<Rightarrow> exn \<Rightarrow> world \<Rightarrow> world" where
  "console_error msg x w = w\<lparr>consoleErrors := consoleErrors w @ [(msg, x)]\<rparr>"

definition createObjectURL :: "world \<Rightarrow> url \<times> world" where
  "createObjectURL w = (nextUrl w, w\<lparr>nextUrl := Suc (nextUrl w)\<rparr>)"

definition revokeObjectURL :: "url \<Rightarrow> world \<Rightarrow> world" where
  "revokeObjectURL u w = w\<lparr>revoked := revoked w @ [u]\<rparr>"

text \<open>
  \<open>Math.random().toString(36)\<close>: the \<open>k\<close>-th call returns \<open>rnd k\<close>, a string such as
  \<open>0.4fzyo82mvyr\<close>; \<open>rnd\<close> is the generator, which the component does not control.
\<close>

definition random36 :: "(nat \<Rightarrow> string) \<Rightarrow> world \<Rightarrow> string \<times> world" where
  "random36 rnd w = (rnd (randomCalls w), w\<lparr>randomCalls := Suc (randomCalls w)\<rparr>)"

definition saveAs :: "build_env \<Rightarrow> Blob \<Rightarrow> string \<Rightarrow> world \<Rightarrow> exn + world" where
  "saveAs e content fname w =
     (case saveAsThrows e content fname of
        Some x \<Rightarrow> Inl x
      | None \<Rightarrow> Inr (w\<lparr>downloads := downloads w @ [(content, fname)]\<rparr>))"

text \<open>
  Modelled from the spec: \<open>generateAsync\<close> either rejects or resolves to a blob holding
  every entry of the container under its name, each payload read back unchanged.
\<close>

definition generateAsync :: "build_env \<Rightarrow> string \<Rightarrow> nat \<Rightarrow> JSZip \<Rightarrow> exn + Blob" where
  "generateAsync e cmp lvl archive =
     (case generateThrows e archive of
        Some x \<Rightarrow> Inl x
      | None \<Rightarrow> Inr \<lparr>entries = map (\<lambda>(nm, f). (nm, bytes f)) archive,
                      compression = cmp, level = lvl\<rparr>)"

subsection \<open>JavaScript numbers\<close>

text \<open>
  A JavaScript number is an IEEE 754 double. The finite doubles are rational numbers, and an
  arithmetic operation returns the double nearest to the exact result, a tie going to the
  double with an even significand. The progress values are quotients and products of
  integers below \<open>2 ^ 32\<close> (the bound of an array length), which are doubles themselves; the
  loop divides by the length of a non-empty list only. The results are far from the ends of
  the exponent range, which is therefore left unbounded.
\<close>

text \<open>
  The exponent of a positive number: \<open>flog2 x\<close> is the \<open>e\<close> with \<open>2 ^ e \<le> x < 2 ^ (e + 1)\<close>,
  found by halving (from 1 up) or doubling (below 1).
\<close>

function flog2up :: "rat \<Rightarrow> int" where
  "flog2up x = (if x < 2 then 0 else flog2up (x / 2) + 1)"
  by pat_completeness auto
termination
proof (relation "measure (\<lambda>x. nat \<lfloor>x\<rfloor>)")
  show "wf (measure (\<lambda>x::rat. nat \<lfloor>x\<rfloor>))" by simp
next
  fix x :: rat
  assume "\<not> x < 2"
  then have x: "2 \<le> x" by simp
  then have "x / 2 \<le> x - 1" by simp
  then have "\<lfloor>x / 2\<rfloor> \<le> \<lfloor>x - 1\<rfloor>" by (rule floor_mono)
  then have "\<lfloor>x / 2\<rfloor> < \<lfloor>x\<rfloor>" by simp
  moreover from x have "0 < \<lfloor>x\<rfloor>" by simp
  ultimately show "(x / 2, x) \<in> measure (\<lambda>x. nat \<lfloor>x\<rfloor>)" by simp
qed

function flog2down :: "rat \<Rightarrow> int" where
  "flog2down x = (if x \<le> 0 \<or> 1 \<le> x then 0 else flog2down (2 * x) - 1)"
  by pat_completeness auto
termination
proof (relation "measure (\<lambda>x. nat \<lceil>1 / x\<rceil>)")
  show "wf (measure (\<lambda>x::rat. nat \<lceil>1 / x\<rceil>))" by simp
next
  fix x :: rat
  assume "\<not> (x \<le> 0 \<or> 1 \<le> x)"
  then have x: "0 < x" "x < 1" by simp_all
  then have y: "1 < 1 / x" by simp
  then have c2: "2 \<le> \<lceil>1 / x\<rceil>" by linarith
  have "1 / x \<le> of_int \<lceil>1 / x\<rceil>" by (rule le_of_int_ceiling)
  then have "1 / (2 * x) \<le> of_int \<lceil>1 / x\<rceil> / 2" by simp
  also have "\<dots> \<le> of_int (\<lceil>1 / x\<rceil> - 1)" using c2 by simp
  finally have "\<lceil>1 / (2 * x)\<rceil> \<le> \<lceil>1 / x\<rceil> - 1" by (simp only: ceiling_le_iff)
  then have "\<lceil>1 / (2 * x)\<rceil> < \<lceil>1 / x\<rceil>" by simp
  moreover from c2 have "0 < \<lceil>1 / x\<rceil>" by linarith
  ultimately show "(2 * x, x) \<in> measure (\<lambda>x. nat \<lceil>1 / x\<rceil>)" by simp
qed

declare flog2up.simps [simp del]

declare flog2down.simps [simp del]

definition flog2 :: "rat \<Rightarrow> int" where
  "flog2 x = (if 1 \<le> x then flog2up x else flog2down x)"

text \<open>Rounding to the nearest integer, a tie going to the even one.\<close>

definition roundHalfEven :: "rat \<Rightarrow> int" where
  "roundHalfEven y =
     (let f = \<lfloor>y\<rfloor>; r = y - of_int f
      in if r < 1 / 2 then f else if 1 / 2 < r then f + 1 else if even f then f else f + 1)"

text \<open>
  \<open>fl x\<close>: the double nearest to \<open>x\<close>. The significand of a double has 53 bits, so the
  doubles with exponent \<open>e\<close> are the multiples of \<open>2 ^ (e - 52)\<close>.
\<close>

definition roundPos :: "rat \<Rightarrow> rat" where
  "roundPos x = (let e = flog2 x; u = 2 powi (e - 52) in of_int (roundHalfEven (x / u)) * u)"

definition fl :: "rat \<Rightarrow> rat" where
  "fl x = (if x = 0 then 0 else if x < 0 then - roundPos (- x) else roundPos x)"

text \<open>The JavaScript operators \<open>/\<close> and \<open>*\<close> on numbers: the exact result, rounded.\<close>

definition fdiv :: "rat \<Rightarrow> rat \<Rightarrow> rat" where
  "fdiv a b = fl (a / b)"

definition fmul :: "rat \<Rightarrow> rat \<Rightarrow> rat" where
  "fmul a b = fl (a * b)"

subsection \<open>The React state setters\<close>

definition setFiles :: "(FileItem list \<Rightarrow> FileItem list) \<Rightarrow> world \<Rightarrow> world" where
  "setFiles upd w = w\<lparr>files := upd (files w)\<rparr>"

definition setIsCreatingZip :: "bool \<Rightarrow> world \<Rightarrow> world" where
  "setIsCreatingZip b w = w\<lparr>isCreatingZip := b\<rparr>"

definition setZipProgress :: "rat \<Rightarrow> world \<Rightarrow> world" where
  "setZipProgress p w = w\<lparr>zipProgress := p, progressLog := progressLog w @ [p]\<rparr>"

subsection \<open>The staging list\<close>

text \<open>
  The callback of \<open>newFiles.map\<close> in \<open>addFiles\<close>: an id from the random generator, and an
  object URL when the MIME type starts with \<open>image/\<close>.
\<close>

definition newItem :: "(nat \<Rightarrow> string) \<Rightarrow> File \<Rightarrow> world \<Rightarrow> FileItem \<times> world" where
  "newItem rnd f w =
     (let (r, w1) = random36 rnd w;
          (p, w2) = (if startsWith (type f) ''image/''
                     then (let (u, w') = createObjectURL w1 in (Some u, w'))
                     else (None, w1))
      in (\<lparr>item_id = substring 7 r, item_file = f, preview = p\<rparr>, w2))"

fun mapItems :: "(nat \<Rightarrow> string) \<Rightarrow> File list \<Rightarrow> world \<Rightarrow> FileItem list \<times> world" where
  "mapItems rnd [] w = ([], w)"
| "mapItems rnd (f # fs) w =
     (let (x, w1) = newItem rnd f w;
          (xs, w2) = mapItems rnd fs w1
      in (x # xs, w2))"

definition addFiles :: "(nat \<Rightarrow> string) \<Rightarrow> File list \<Rightarrow> world \<Rightarrow> world" where
  "addFiles rnd newFiles w =
     (let (fileItems, w1) = mapItems rnd newFiles w;
          w2 = setFiles (\<lambda>prev. prev @ fileItems) w1
      in toast_success (''Added '' @ toString (length newFiles) @ '' file(s)'') w2)"

definition revokePreview :: "FileItem \<Rightarrow> world \<Rightarrow> world" where
  "revokePreview f w = (case preview f of Some u \<Rightarrow> revokeObjectURL u w | None \<Rightarrow> w)"

definition removeFile :: "string \<Rightarrow> world \<Rightarrow> world" where
  "removeFile i w =
     (let prev = files w;
          fileToRemove = find (\<lambda>f. item_id f = i) prev;
          w1 = (case fileToRemove of Some f \<Rightarrow> revokePreview f w | None \<Rightarrow> w)
      in setFiles (\<lambda>_. filter (\<lambda>f. item_id f \<noteq> i) prev) w1)"

definition clearAllFiles :: "world \<Rightarrow> world" where
  "clearAllFiles w =
     (let w1 = fold revokePreview (files w) w;
          w2 = setFiles (\<lambda>_. []) w1
      in toast_success ''All files cleared'' w2)"

definition totalSize :: "world \<Rightarrow> nat" where
  "totalSize w = fold (\<lambda>f sum. sum + file_size (item_file f)) (files w) 0"

subsection \<open>The archive builder\<close>

text \<open>
  The \<open>for\<close> loop of \<open>createZip\<close>, from index \<open>i\<close>: it stops at the first exception, which
  the \<open>try\<close> around it catches.
\<close>

function addLoop ::
  "build_env \<Rightarrow> FileItem list \<Rightarrow> nat \<Rightarrow> JSZip \<Rightarrow> world \<Rightarrow> (exn + JSZip) \<times> world" where
  "addLoop e fs i archive w =
     (if i < length fs then
        (let fileItem = fs ! i in
         case fileThrows e (name (item_file fileItem)) (item_file fileItem) of
           Some x \<Rightarrow> (Inl x, w)
         | None \<Rightarrow>
             addLoop e fs (Suc i)
               (zip_file (name (item_file fileItem)) (item_file fileItem) archive)
               (setZipProgress (fmul (fdiv (of_nat (i + 1)) (of_nat (length fs))) 50) w))
      else (Inr archive, w))"
  by pat_completeness auto
termination
  by (relation "measure (\<lambda>(e, fs, i, archive, w). length fs - i)") auto

declare addLoop.simps [simp del]

definition zipFileName :: "Date \<Rightarrow> string" where
  "zipFileName now =
     (let timestamp = replaceAll CHR '':'' CHR ''-'' (slice 0 19 (toISOString now))
      in ''file-fling-'' @ timestamp @ ''.zip'')"

text \<open>The body of the \<open>try\<close> block: \<open>Inl\<close> is the exception that leaves it.\<close>

definition tryBody :: "build_env \<Rightarrow> FileItem list \<Rightarrow> world \<Rightarrow> (exn + unit) \<times> world" where
  "tryBody e fs w =
     (case addLoop e fs 0 [] w of
        (Inl x, w1) \<Rightarrow> (Inl x, w1)
      | (Inr archive, w1) \<Rightarrow>
          (let w2 = setZipProgress 75 w1 in
           case generateAsync e ''DEFLATE'' 6 archive of
             Inl x \<Rightarrow> (Inl x, w2)
           | Inr content \<Rightarrow>
               (let w3 = setZipProgress 100 w2 in
                case saveAs e content (zipFileName (clock e)) w3 of
                  Inl x \<Rightarrow> (Inl x, w3)
                | Inr w4 \<Rightarrow>
                    (Inr (), toast_success ''ZIP file created and downloaded successfully!'' w4))))"

text \<open>
  \<open>createZip\<close>: the first component is how the call ends for its caller, \<open>Inr ()\<close> when the
  promise resolves and \<open>Inl x\<close> when it rejects with \<open>x\<close>.
\<close>

definition createZip :: "build_env \<Rightarrow> world \<Rightarrow> (exn + unit) \<times> world" where
  "createZip e w =
     (if length (files w) = 0 then (Inr (), toast_error ''Please add some files first'' w)
      else
        (let w1 = setZipProgress 0 (setIsCreatingZip True w);
             (r, w2) = tryBody e (files w) w1;
             w3 = (case r of
                     Inr _ \<Rightarrow> w2
                   | Inl x \<Rightarrow>
                       toast_error ''Failed to create ZIP file''
                         (console_error ''Error creating ZIP:'' x w2))
         in (Inr (), setZipProgress 0 (setIsCreatingZip False w3))))"

subsection \<open>Sessions\<close>

text \<open>The state at mount: the initial values of the \<open>useState\<close> calls, and nothing logged.\<close>

definition initialWorld :: world where
  "initialWorld =
     \<lparr>files = [], isCreatingZip = False, zipProgress = 0, progressLog = [], toasts = [],
      consoleErrors = [], downloads = [], randomCalls = 0, nextUrl = 0, revoked = []\<rparr>"

text \<open>
  A session is a sequence of user actions, each running one handler, from the state at
  mount.
\<close>

datatype action = AddFiles "File list" | RemoveFile string | ClearAllFiles | CreateZip build_env

fun step :: "(nat \<Rightarrow> string) \<Rightarrow> action \<Rightarrow> world \<Rightarrow> world" where
  "step rnd (AddFiles newFiles) w = addFiles rnd newFiles w"
| "step rnd (RemoveFile i) w = removeFile i w"
| "step rnd ClearAllFiles w = clearAllFiles w"
| "step rnd (CreateZip e) w = snd (createZip e w)"

subsection \<open>Vocabulary of the statements\<close>

text \<open>The \<open>i\<close>-th progress value of the loop over \<open>n\<close> files.\<close>

definition checkpoint :: "nat \<Rightarrow> nat \<Rightarrow> rat" where
  "checkpoint n i = fmul (fdiv (of_nat (i + 1)) (of_nat n)) 50"

text \<open>\<open>fileItem.file.name\<close>, the name an entry is stored under.\<close>

definition fileName :: "FileItem \<Rightarrow> string" where
  "fileName x = name (item_file x)"

text \<open>
  An entry lies at the top level of the archive when its path names no folder, that is,
  holds no \<open>/\<close>.
\<close>

definition topLevel :: "string \<Rightarrow> bool" where
  "topLevel path \<longleftrightarrow> CHR ''/'' \<notin> set path"

text \<open>
  What a build computes when nothing throws: the container after the loop, and the blob
  \<open>generateAsync\<close> makes of it.
\<close>

definition addEntry :: "FileItem \<Rightarrow> JSZip \<Rightarrow> JSZip" where
  "addEntry x archive = zip_file (name (item_file x)) (item_file x) archive"

definition containerOf :: "FileItem list \<Rightarrow> JSZip" where
  "containerOf fs = fold addEntry fs []"

definition blobOf :: "FileItem list \<Rightarrow> Blob" where
  "blobOf fs = \<lparr>entries = map (\<lambda>(nm, f). (nm, bytes f)) (containerOf fs),
               compression = ''DEFLATE'', level = 6\<rparr>"

text \<open>
  A build succeeds when none of its calls throws: no \<open>zip.file\<close>, not \<open>generateAsync\<close> on the
  finished container, not \<open>saveAs\<close> on the blob.
\<close>

definition addsSucceed :: "build_env \<Rightarrow> FileItem list \<Rightarrow> bool" where
  "addsSucceed e fs \<longleftrightarrow>
     (\<forall>x \<in> set fs. fileThrows e (name (item_file x)) (item_file x) = None)"

definition buildSucceeds :: "build_env \<Rightarrow> FileItem list \<Rightarrow> bool" where
  "buildSucceeds e fs \<longleftrightarrow>
     addsSucceed e fs \<and> generateThrows e (containerOf fs) = None \<and>
     saveAsThrows e (blobOf fs) (zipFileName (clock e)) = None"

text \<open>
  The pattern \<open>file-fling-\d{4}-\d{2}-\d{2}T\d{2}-\d{2}-\d{2}\.zip\<close>: a sequence of literal
  characters and digit classes, matched against the whole string.
\<close>

datatype atom = Lit char | Digit

definition isDigit :: "char \<Rightarrow> bool" where
  "isDigit c \<longleftrightarrow> c \<in> set ''0123456789''"

fun matches :: "atom list \<Rightarrow> string \<Rightarrow> bool" where
  "matches [] [] = True"
| "matches (Lit c # ps) (x # xs) = (x = c \<and> matches ps xs)"
| "matches (Digit # ps) (x # xs) = (isDigit x \<and> matches ps xs)"
| "matches _ _ = False"

definition zipNamePattern :: "atom list" where
  "zipNamePattern =
     map Lit ''file-fling-'' @ replicate 4 Digit @ [Lit CHR ''-''] @ replicate 2 Digit @
     [Lit CHR ''-''] @ replicate 2 Digit @ [Lit CHR ''T''] @ replicate 2 Digit @
     [Lit CHR ''-''] @ replicate 2 Digit @ [Lit CHR ''-''] @ replicate 2 Digit @
     map Lit ''.zip''"

text \<open>
  Clock readings: \<open>fourDigitYear\<close> holds when the UTC year is one \<open>toISOString\<close> prints with
  four digits; \<open>validDate\<close> gives the ranges of the other calendar fields;
  \<open>sameSecond\<close> relates two readings that differ at most in their milliseconds.
\<close>

definition fourDigitYear :: "Date \<Rightarrow> bool" where
  "fourDigitYear d \<longleftrightarrow> 0 \<le> year d \<and> year d \<le> 9999"

definition validDate :: "Date \<Rightarrow> bool" where
  "validDate d \<longleftrightarrow>
     1 \<le> month d \<and> month d \<le> 12 \<and> 1 \<le> day d \<and> day d \<le> 31 \<and>
     hour d < 24 \<and> minute d < 60 \<and> second d < 60 \<and> millis d < 1000"

definition sameSecond :: "Date \<Rightarrow> Date \<Rightarrow> bool" where
  "sameSecond a b \<longleftrightarrow>
     year a = year b \<and> month a = month b \<and> day a = day b \<and>
     hour a = hour b \<and> minute a = minute b \<and> second a = second b"

text \<open>The object URLs held by a staged list, in order.\<close>

primrec previewsOf :: "FileItem list \<Rightarrow> url list" where
  "previewsOf [] = []"
| "previewsOf (f # fs) = (case preview f of Some u \<Rightarrow> u # previewsOf fs | None \<Rightarrow> previewsOf fs)"

text \<open>The id that the \<open>k\<close>-th call of the random generator gives: \<open>Math.random().toString(36).substring(7)\<close>.\<close>

definition drawnId :: "(nat \<Rightarrow> string) \<Rightarrow> nat \<Rightarrow> string" where
  "drawnId rnd k = substring 7 (rnd k)"

text \<open>
  The invariant behind the release of object URLs: ids are pairwise distinct and come from
  draws already made; no URL is both staged and revoked, or staged or revoked twice; and
  the URLs staged or revoked are exactly those allocated so far.
\<close>

definition handlesInv :: "(nat \<Rightarrow> string) \<Rightarrow> world \<Rightarrow> bool" where
  "handlesInv rnd w \<longleftrightarrow>
     distinct (map item_id (files w)) \<and>
     set (map item_id (files w)) \<subseteq> drawnId rnd ` {..<randomCalls w} \<and>
     distinct (previewsOf (files w) @ revoked w) \<and>
     set (previewsOf (files w) @ revoked w) = {..<nextUrl w}"

subsection \<open>Sample inputs\<close>

text \<open>An environment in which nothing throws, with the clock reading \<open>now\<close>.\<close>

definition calmEnv :: "Date \<Rightarrow> build_env" where
  "calmEnv now =
     \<lparr>fileThrows = (\<lambda>_ _. None), generateThrows = (\<lambda>_. None),
      saveAsThrows = (\<lambda>_ _. None), clock = now\<rparr>"

text \<open>An environment in which reading the files fails, so that \<open>generateAsync\<close> rejects.\<close>

definition unreadableEnv :: "Date \<Rightarrow> build_env" where
  "unreadableEnv now =
     \<lparr>fileThrows = (\<lambda>_ _. None), generateThrows = (\<lambda>_. Some ''NotReadableError''),
      saveAsThrows = (\<lambda>_ _. None), clock = now\<rparr>"

text \<open>Clock readings: one, another in the same second, one a second later, one in the year 10000.\<close>

definition sampleDate :: Date where
  "sampleDate = \<lparr>year = 2026, month = 11, day = 2, hour = 8, minute = 26, second = 5, millis = 123\<rparr>"

definition laterDate :: Date where
  "laterDate = sampleDate\<lparr>millis := 900\<rparr>"

definition nextSecond :: Date where
  "nextSecond = sampleDate\<lparr>second := 6, millis := 2\<rparr>"

definition farDate :: Date where
  "farDate = sampleDate\<lparr>year := 10000\<rparr>"

text \<open>A text file and an image.\<close>

definition aTxt :: File where
  "aTxt = \<lparr>name = ''a.txt'', type = ''text/plain'',
           bytes = [104, 101, 108, 108, 111, 32, 119, 111, 114, 108, 100, 33]\<rparr>"

definition bPng :: File where
  "bPng = \<lparr>name = ''b.png'', type = ''image/png'', bytes = [137, 80, 78, 71, 13, 10, 26, 10]\<rparr>"

text \<open>A staged text file, and the state in which it is the only staged file.\<close>

definition oneFile :: "FileItem list" where
  "oneFile = [\<lparr>item_id = ''k3x9p'',
              item_file = \<lparr>name = ''a.txt'', type = ''text/plain'', bytes = [104, 105]\<rparr>,
              preview = None\<rparr>]"

definition stagedOne :: world where
  "stagedOne = initialWorld\<lparr>files := oneFile\<rparr>"

text \<open>Two staged files with the same name and different contents.\<close>

definition twoSameName :: "FileItem list" where
  "twoSameName =
     [\<lparr>item_id = ''k3x9p'',
       item_file = \<lparr>name = ''a.txt'', type = ''text/plain'', bytes = [104, 105]\<rparr>,
       preview = None\<rparr>,
      \<lparr>item_id = ''q7m2c'',
       item_file = \<lparr>name = ''a.txt'', type = ''text/plain'', bytes = [98, 121, 101]\<rparr>,
       preview = None\<rparr>]"

definition stagedSameName :: world where
  "stagedSameName = initialWorld\<lparr>files := twoSameName\<rparr>"

text \<open>
  Three staged files, and two more environments: one in which \<open>saveAs\<close> throws, one in which
  \<open>zip.file\<close> throws on \<open>b.png\<close>.
\<close>

definition threeFiles :: "FileItem list" where
  "threeFiles =
     [\<lparr>item_id = ''k3x9p'', item_file = aTxt, preview = None\<rparr>,
      \<lparr>item_id = ''q7m2c'', item_file = bPng, preview = Some 0\<rparr>,
      \<lparr>item_id = ''w1d8r'',
       item_file = \<lparr>name = ''c.txt'', type = ''text/plain'', bytes = [99]\<rparr>,
       preview = None\<rparr>]"

definition stagedThree :: world where
  "stagedThree = initialWorld\<lparr>files := threeFiles, randomCalls := 3, nextUrl := 1\<rparr>"

definition saveFailsEnv :: "Date \<Rightarrow> build_env" where
  "saveFailsEnv now =
     \<lparr>fileThrows = (\<lambda>_ _. None), generateThrows = (\<lambda>_. None),
      saveAsThrows = (\<lambda>_ _. Some ''SecurityError''), clock = now\<rparr>"

definition addFailsEnv :: "Date \<Rightarrow> build_env" where
  "addFailsEnv now =
     \<lparr>fileThrows = (\<lambda>nm _. if nm = ''b.png'' then Some ''TypeError'' else None),
      generateThrows = (\<lambda>_. None), saveAsThrows = (\<lambda>_ _. None), clock = now\<rparr>"

text \<open>
  Two random generators. The ids of \<open>sampleRnd\<close> are \<open>x\<close>, \<open>xx\<close>, \<open>xxx\<close>, ...; the first
  two numbers of \<open>collidingRnd\<close> differ, and agree from index 7 on.
\<close>

definition sampleRnd :: "nat \<Rightarrow> string" where
  "sampleRnd k = ''0.4fzyo'' @ replicate (Suc k) CHR ''x''"

definition collidingRnd :: "nat \<Rightarrow> string" where
  "collidingRnd k = (if k = 0 then ''0.4fzyo8k2m1'' else ''0.9x1kq8k2m1'')"

text \<open>A generator that repeats itself after four draws.\<close>

definition cyclicRnd :: "nat \<Rightarrow> string" where
  "cyclicRnd k = sampleRnd (k mod 4)"

text \<open>The states reached from the state at mount by adding the two files.\<close>

definition stagedTwo :: world where
  "stagedTwo = addFiles sampleRnd [aTxt, bPng] initialWorld"

definition stagedCollided :: world where
  "stagedCollided = addFiles collidingRnd [aTxt, bPng] initialWorld"

text \<open>Two sessions: the second is run with \<open>collidingRnd\<close>.\<close>

definition sampleTrace :: "action list" where
  "sampleTrace = [AddFiles [aTxt, bPng], RemoveFile ''xx'', AddFiles [bPng]]"

definition collidingTrace :: "action list" where
  "collidingTrace = [AddFiles [aTxt, bPng], RemoveFile ''8k2m1'']"

section \<open>Lemmas\<close>

subsection \<open>Rounding to a double\<close>

text \<open>
  Rounding is monotone and leaves a double unchanged. Two quotients \<open>(i + 1) / n\<close> and
  \<open>(j + 1) / n\<close> with \<open>n < 2 ^ 32\<close> are at least \<open>2 ^ - 39\<close> apart, so two consecutive
  multiples of \<open>2 ^ - 40\<close> lie between them; these and their products with 50 are doubles,
  which keeps the rounded checkpoints apart.
\<close>

lemma flog2up_bounds: "1 \<le> x \<Longrightarrow> 2 powi flog2up x \<le> x \<and> x < 2 powi (flog2up x + 1)"
proof (induction x rule: flog2up.induct)
  case (1 x)
  show ?case
  proof (cases "x < 2")
    case True
    with "1.prems" show ?thesis by (simp add: flog2up.simps)
  next
    case False
    then have "1 \<le> x / 2" by simp
    from "1.IH"[OF False this] have "2 powi flog2up (x / 2) \<le> x / 2" "x / 2 < 2 powi (flog2up (x / 2) + 1)"
      by simp_all
    then have "2 powi flog2up (x / 2) * 2 \<le> x" "x < 2 powi (flog2up (x / 2) + 1) * 2"
      by (simp_all add: field_simps)
    moreover have "flog2up x = flog2up (x / 2) + 1" using False by (subst flog2up.simps) simp
    ultimately show ?thesis by (simp add: power_int_add)
  qed
qed

lemma flog2down_bounds:
  "0 < x \<Longrightarrow> x < 1 \<Longrightarrow> 2 powi flog2down x \<le> x \<and> x < 2 powi (flog2down x + 1)"
proof (induction x rule: flog2down.induct)
  case (1 x)
  have eq: "flog2down x = flog2down (2 * x) - 1" using "1.prems" by (subst flog2down.simps) simp
  from "1.prems" have c: "\<not> (x \<le> 0 \<or> 1 \<le> x)" by simp
  show ?case
  proof (cases "2 * x < 1")
    case True
    from "1.IH"[OF c _ True] "1.prems"
    have "2 powi flog2down (2 * x) \<le> 2 * x" "2 * x < 2 powi (flog2down (2 * x) + 1)" by simp_all
    then show ?thesis unfolding eq by (simp add: power_int_diff power_int_add field_simps)
  next
    case False
    then have "flog2down (2 * x) = 0" by (subst flog2down.simps) simp
    with False "1.prems" show ?thesis unfolding eq by (simp add: power_int_minus field_simps)
  qed
qed

lemma flog2_bounds: "0 < x \<Longrightarrow> 2 powi flog2 x \<le> x \<and> x < 2 powi (flog2 x + 1)"
  using flog2up_bounds[of x] flog2down_bounds[of x] by (cases "1 \<le> x") (simp_all add: flog2_def)

lemma flog2_unique:
  assumes "0 < x" "2 powi e \<le> x" "x < 2 powi (e + 1)"
  shows "flog2 x = e"
proof (rule ccontr)
  assume ne: "flog2 x \<noteq> e"
  from flog2_bounds[OF assms(1)] have b: "2 powi flog2 x \<le> x" "x < 2 powi (flog2 x + 1)" by simp_all
  show False
  proof (cases "flog2 x < e")
    case True
    then have "(2::rat) powi (flog2 x + 1) \<le> 2 powi e" by (intro power_int_increasing) simp_all
    with b(2) assms(2) show False by simp
  next
    case False
    with ne have "e + 1 \<le> flog2 x" by simp
    then have "(2::rat) powi (e + 1) \<le> 2 powi flog2 x" by (intro power_int_increasing) simp_all
    with b(1) assms(3) show False by simp
  qed
qed

lemma roundHalfEven_of_int: "roundHalfEven (of_int k) = k"
  by (simp add: roundHalfEven_def)

lemma roundHalfEven_range: "\<lfloor>y\<rfloor> \<le> roundHalfEven y \<and> roundHalfEven y \<le> \<lfloor>y\<rfloor> + 1"
  by (simp add: roundHalfEven_def Let_def)

lemma roundHalfEven_mono: "y \<le> z \<Longrightarrow> roundHalfEven y \<le> roundHalfEven z"
proof -
  assume yz: "y \<le> z"
  then have f: "\<lfloor>y\<rfloor> \<le> \<lfloor>z\<rfloor>" by (rule floor_mono)
  show ?thesis
  proof (cases "\<lfloor>y\<rfloor> = \<lfloor>z\<rfloor>")
    case True
    with yz have "y - of_int \<lfloor>y\<rfloor> \<le> z - of_int \<lfloor>z\<rfloor>" by simp
    with True show ?thesis by (auto simp: roundHalfEven_def Let_def)
  next
    case False
    with f have "\<lfloor>y\<rfloor> + 1 \<le> \<lfloor>z\<rfloor>" by simp
    with roundHalfEven_range[of y] roundHalfEven_range[of z] show ?thesis by linarith
  qed
qed

lemma flog2_mono: "0 < x \<Longrightarrow> x \<le> y \<Longrightarrow> flog2 x \<le> flog2 y"
proof (rule ccontr)
  assume x: "0 < x" and xy: "x \<le> y" and n: "\<not> flog2 x \<le> flog2 y"
  then have "flog2 y + 1 \<le> flog2 x" by simp
  then have "(2::rat) powi (flog2 y + 1) \<le> 2 powi flog2 x" by (intro power_int_increasing) simp_all
  moreover from x xy have "0 < y" by simp
  ultimately show False using flog2_bounds[of x] flog2_bounds[of y] x xy by simp
qed

lemma roundPos_exact:
  assumes m: "0 < m" "m < 2 ^ 53"
  shows "roundPos (of_int m * 2 powi k) = of_int m * 2 powi k"
proof -
  let ?x = "of_int m * (2::rat) powi k"
  let ?e = "flog2 ?x"
  have p: "(0::rat) < 2 powi k" by simp
  with m have x: "0 < ?x" by simp
  from flog2_bounds[OF x] have "2 powi ?e \<le> ?x" by simp
  also have "?x < 2 ^ 53 * 2 powi k"
  proof -
    from m(2) have "(of_int m :: rat) < of_int (2 ^ 53)" by (simp only: of_int_less_iff)
    then have "(of_int m :: rat) < 2 ^ 53" by simp
    with p show ?thesis by simp
  qed
  also have "\<dots> = 2 powi (53 + k)" by (simp add: power_int_add)
  finally have lt: "2 powi ?e < (2::rat) powi (53 + k)" .
  have "?e < 53 + k"
  proof (rule ccontr)
    assume "\<not> ?e < 53 + k"
    then have "(2::rat) powi (53 + k) \<le> 2 powi ?e" by (intro power_int_increasing) simp_all
    with lt show False by simp
  qed
  then obtain d :: nat where d: "k - (?e - 52) = int d" using nonneg_int_cases[of "k - (?e - 52)"] by auto
  have "?x / 2 powi (?e - 52) = of_int m * 2 powi (k - (?e - 52))"
    by (simp add: power_int_diff)
  also have "\<dots> = of_int (m * 2 ^ d)" by (simp add: d)
  finally have q: "?x / 2 powi (?e - 52) = of_int (m * 2 ^ d)" .
  have "roundPos ?x = of_int (m * 2 ^ d) * 2 powi (?e - 52)"
    by (simp only: roundPos_def Let_def q roundHalfEven_of_int)
  also have "\<dots> = ?x" using q[symmetric] by simp
  finally show ?thesis .
qed

lemma roundPos_range:
  assumes x: "0 < x"
  shows "2 powi flog2 x \<le> roundPos x \<and> roundPos x \<le> 2 powi (flog2 x + 1)"
proof -
  let ?e = "flog2 x"
  let ?u = "(2::rat) powi (?e - 52)"
  have u: "0 < ?u" by simp
  from flog2_bounds[OF x] have b: "2 powi ?e \<le> x" "x < 2 powi (?e + 1)" by simp_all
  have lo: "of_int (2 ^ 52) \<le> x / ?u"
  proof -
    have "(2::rat) powi ?e / ?u = 2 ^ 52" by (simp add: power_int_diff)
    moreover from b(1) u have "2 powi ?e / ?u \<le> x / ?u" by (simp add: divide_right_mono)
    ultimately show ?thesis by simp
  qed
  have hi: "x / ?u \<le> of_int (2 ^ 53)"
  proof -
    have "(2::rat) powi (?e + 1) / ?u = 2 ^ 53" by (simp add: power_int_diff power_int_add)
    moreover from b(2) u have "x / ?u \<le> 2 powi (?e + 1) / ?u" by (simp add: divide_right_mono)
    ultimately show ?thesis by simp
  qed
  from roundHalfEven_mono[OF lo] have l2: "2 ^ 52 \<le> roundHalfEven (x / ?u)"
    by (simp only: roundHalfEven_of_int)
  from roundHalfEven_mono[OF hi] have h2: "roundHalfEven (x / ?u) \<le> 2 ^ 53"
    by (simp only: roundHalfEven_of_int)
  from l2 have "(of_int (2 ^ 52) :: rat) \<le> of_int (roundHalfEven (x / ?u))" by (simp only: of_int_le_iff)
  then have "of_int (2 ^ 52) * ?u \<le> of_int (roundHalfEven (x / ?u)) * ?u"
    using u by (simp only: mult_le_cancel_right_pos)
  moreover have "of_int (2 ^ 52) * ?u = 2 powi ?e" by (simp add: power_int_diff)
  ultimately have A: "2 powi ?e \<le> of_int (roundHalfEven (x / ?u)) * ?u" by (simp only:)
  from h2 have "(of_int (roundHalfEven (x / ?u)) :: rat) \<le> of_int (2 ^ 53)" by (simp only: of_int_le_iff)
  then have "of_int (roundHalfEven (x / ?u)) * ?u \<le> of_int (2 ^ 53) * ?u"
    using u by (simp only: mult_le_cancel_right_pos)
  moreover have "of_int (2 ^ 53) * ?u = 2 powi (?e + 1)" by (simp add: power_int_diff power_int_add)
  ultimately have B: "of_int (roundHalfEven (x / ?u)) * ?u \<le> 2 powi (?e + 1)" by (simp only:)
  from A B show ?thesis unfolding roundPos_def Let_def by blast
qed

lemma roundPos_mono:
  assumes x: "0 < x" and xy: "x \<le> y"
  shows "roundPos x \<le> roundPos y"
proof (cases "flog2 x = flog2 y")
  case True
  let ?u = "(2::rat) powi (flog2 y - 52)"
  have u: "0 < ?u" by simp
  from xy u have "x / ?u \<le> y / ?u" by (simp add: divide_right_mono)
  from roundHalfEven_mono[OF this]
  have "(of_int (roundHalfEven (x / ?u)) :: rat) \<le> of_int (roundHalfEven (y / ?u))"
    by (simp only: of_int_le_iff)
  with u have "of_int (roundHalfEven (x / ?u)) * ?u \<le> of_int (roundHalfEven (y / ?u)) * ?u" by simp
  then show ?thesis by (simp add: roundPos_def Let_def True)
next
  case False
  from x xy have y: "0 < y" by simp
  from False flog2_mono[OF x xy] have "flog2 x + 1 \<le> flog2 y" by simp
  then have "(2::rat) powi (flog2 x + 1) \<le> 2 powi flog2 y" by (intro power_int_increasing) simp_all
  with roundPos_range[OF x] roundPos_range[OF y] show ?thesis by linarith
qed

lemma fl_pos: "0 < x \<Longrightarrow> fl x = roundPos x"
  by (simp add: fl_def)

lemma fl_exact: "0 < m \<Longrightarrow> m < 2 ^ 53 \<Longrightarrow> fl (of_int m * 2 powi k) = of_int m * 2 powi k"
  by (simp add: fl_pos roundPos_exact)

lemma fl_mono: "0 < x \<Longrightarrow> x \<le> y \<Longrightarrow> fl x \<le> fl y"
  by (simp add: fl_pos roundPos_mono)

lemma fl_pos_pos: "0 < x \<Longrightarrow> 0 < fl x"
proof -
  assume x: "0 < x"
  have "(0::rat) < 2 powi flog2 x" by simp
  with roundPos_range[OF x] have "0 < roundPos x" by linarith
  then show ?thesis by (simp add: fl_pos x)
qed

lemma fl_one: "fl 1 = 1"
  using fl_exact[of 1 0] by simp

lemma fl_fifty: "fl 50 = 50"
  using fl_exact[of 50 0] by simp

lemma checkpoint_last: "0 < n \<Longrightarrow> checkpoint n (n - 1) = 50"
  by (simp add: checkpoint_def fdiv_def fmul_def fl_one fl_fifty)

lemma fl_separated:
  assumes a: "0 < a" and ab: "a + 1 / 2 ^ 39 \<le> b" and b1: "b \<le> 1"
  shows "\<exists>m. 0 < m \<and> m < 2 ^ 40 \<and> fl a \<le> of_int m / 2 ^ 40 \<and> of_int (m + 1) / 2 ^ 40 \<le> fl b"
proof -
  let ?G = "(2::rat) ^ 40"
  define m where "m = \<lceil>a * ?G\<rceil>"
  have g: "1 / ?G = 2 powi (- 40)" by (simp add: power_int_minus field_simps)
  from a have "0 < a * ?G" by simp
  then have m0: "0 < m" unfolding m_def by linarith
  have 1: "a \<le> of_int m / ?G"
  proof -
    have "a * ?G \<le> of_int m" unfolding m_def by (rule le_of_int_ceiling)
    then show ?thesis by (simp add: field_simps)
  qed
  have 2: "of_int (m + 1) / ?G \<le> b"
  proof -
    have "of_int m < a * ?G + 1" unfolding m_def by linarith
    then have "of_int (m + 1) < a * ?G + 2" by simp
    then have "of_int (m + 1) / ?G < (a * ?G + 2) / ?G" by (simp add: divide_strict_right_mono)
    also have "(a * ?G + 2) / ?G = a + 1 / 2 ^ 39" by (simp add: field_simps)
    finally show ?thesis using ab by simp
  qed
  from 2 b1 have "of_int (m + 1) / ?G \<le> 1" by simp
  then have "of_int (m + 1) \<le> ?G" by (simp add: field_simps)
  then have "(of_int (m + 1) :: rat) \<le> of_int (2 ^ 40)" by simp
  then have "m + 1 \<le> 2 ^ 40" by (simp only: of_int_le_iff)
  then have m1: "m < 2 ^ 40" by simp
  from m0 m1 have e1: "fl (of_int m * 2 powi (- 40)) = of_int m * 2 powi (- 40)"
    by (intro fl_exact) simp_all
  from m0 m1 have e2: "fl (of_int (m + 1) * 2 powi (- 40)) = of_int (m + 1) * 2 powi (- 40)"
    by (intro fl_exact) simp_all
  have d: "of_int m / ?G = of_int m * 2 powi (- 40)" "of_int (m + 1) / ?G = of_int (m + 1) * 2 powi (- 40)"
    by (simp_all add: power_int_minus field_simps)
  from fl_mono[OF a 1] have 3: "fl a \<le> of_int m / ?G" using e1 by (simp only: d)
  from m0 have "(0::rat) < of_int (m + 1) / ?G" by simp
  from fl_mono[OF this 2] have 4: "of_int (m + 1) / ?G \<le> fl b" using e2 by (simp only: d)
  from m0 m1 3 4 show ?thesis by blast
qed

lemma checkpoint_less:
  assumes n: "n < 2 ^ 32" and ij: "i < j" and jn: "j < n"
  shows "checkpoint n i < checkpoint n j"
proof -
  let ?a = "of_nat (i + 1) / (of_nat n :: rat)"
  let ?b = "of_nat (j + 1) / (of_nat n :: rat)"
  from jn have n0: "(0::rat) < of_nat n" by simp
  have a: "0 < ?a" using n0 by simp
  have b1: "?b \<le> 1" using jn n0 by simp
  have "1 / (2::rat) ^ 39 \<le> 1 / of_nat n"
  proof -
    from n have "(of_nat n :: rat) < of_nat (2 ^ 32)" by (simp only: of_nat_less_iff)
    then have "(of_nat n :: rat) \<le> 2 ^ 39" by simp
    with n0 show ?thesis by (simp add: frac_le)
  qed
  moreover have "?a + 1 / of_nat n \<le> ?b"
  proof -
    from ij have "i + 1 + 1 \<le> j + 1" by simp
    then have "(of_nat (i + 1 + 1) :: rat) \<le> of_nat (j + 1)" by (simp only: of_nat_le_iff)
    then have "(of_nat (i + 1) + 1) / (of_nat n :: rat) \<le> of_nat (j + 1) / of_nat n"
      using n0 by (simp add: divide_right_mono)
    then show ?thesis by (simp add: add_divide_distrib)
  qed
  ultimately have ab: "?a + 1 / 2 ^ 39 \<le> ?b" by linarith
  from fl_separated[OF a ab b1] obtain m where
    m: "0 < m" "m < 2 ^ 40" and lo: "fl ?a \<le> of_int m / 2 ^ 40" and hi: "of_int (m + 1) / 2 ^ 40 \<le> fl ?b"
    by blast
  have d: "of_int (50 * m) / (2::rat) ^ 40 = of_int (50 * m) * 2 powi (- 40)"
     "of_int (50 * (m + 1)) / (2::rat) ^ 40 = of_int (50 * (m + 1)) * 2 powi (- 40)"
    by (simp_all add: power_int_minus field_simps)
  from m have e1: "fl (of_int (50 * m) * 2 powi (- 40)) = of_int (50 * m) * 2 powi (- 40)"
    by (intro fl_exact) simp_all
  from m have e2: "fl (of_int (50 * (m + 1)) * 2 powi (- 40)) = of_int (50 * (m + 1)) * 2 powi (- 40)"
    by (intro fl_exact) simp_all
  from fl_pos_pos[OF a] have xa: "0 < fl ?a * 50" by simp
  from lo have "fl ?a * 50 \<le> of_int (50 * m) / 2 ^ 40" by simp
  from fl_mono[OF xa this] have 1: "fl (fl ?a * 50) \<le> of_int (50 * m) / 2 ^ 40"
    using e1 by (simp only: d)
  from m have p: "(0::rat) < of_int (50 * (m + 1)) / 2 ^ 40" by simp
  from hi have "of_int (50 * (m + 1)) / 2 ^ 40 \<le> fl ?b * 50" by simp
  from fl_mono[OF p this] have 2: "of_int (50 * (m + 1)) / 2 ^ 40 \<le> fl (fl ?b * 50)"
    using e2 by (simp only: d)
  have "(of_int (50 * m) :: rat) < of_int (50 * (m + 1))" by (simp only: of_int_less_iff) simp
  then have 3: "of_int (50 * m) / (2::rat) ^ 40 < of_int (50 * (m + 1)) / 2 ^ 40"
    by (simp add: divide_strict_right_mono)
  from 1 2 3 show ?thesis
    unfolding checkpoint_def fdiv_def fmul_def by linarith
qed

lemma roundHalfEven_down: "of_int k \<le> y \<Longrightarrow> y - of_int k < 1 / 2 \<Longrightarrow> roundHalfEven y = k"
proof -
  assume a: "of_int k \<le> y" "y - of_int k < 1 / 2"
  then have "\<lfloor>y\<rfloor> = k" by (intro floor_unique) simp_all
  with a show ?thesis by (simp add: roundHalfEven_def)
qed

lemma roundHalfEven_up: "y \<le> of_int k \<Longrightarrow> of_int k - y < 1 / 2 \<Longrightarrow> roundHalfEven y = k"
proof (cases "y = of_int k")
  case True
  then show ?thesis by (simp add: roundHalfEven_of_int)
next
  case False
  assume a: "y \<le> of_int k" "of_int k - y < 1 / 2"
  with False have "\<lfloor>y\<rfloor> = k - 1" by (intro floor_unique) simp_all
  with a False show ?thesis by (simp add: roundHalfEven_def)
qed

lemma fl_eval_down:
  "0 < x \<Longrightarrow> 2 powi e \<le> x \<Longrightarrow> x < 2 powi (e + 1) \<Longrightarrow>
   of_int k \<le> x / 2 powi (e - 52) \<Longrightarrow> x / 2 powi (e - 52) - of_int k < 1 / 2 \<Longrightarrow>
   fl x = of_int k * 2 powi (e - 52)"
  by (simp add: fl_pos roundPos_def Let_def flog2_unique roundHalfEven_down)

lemma fl_eval_up:
  "0 < x \<Longrightarrow> 2 powi e \<le> x \<Longrightarrow> x < 2 powi (e + 1) \<Longrightarrow>
   x / 2 powi (e - 52) \<le> of_int k \<Longrightarrow> of_int k - x / 2 powi (e - 52) < 1 / 2 \<Longrightarrow>
   fl x = of_int k * 2 powi (e - 52)"
  by (simp add: fl_pos roundPos_def Let_def flog2_unique roundHalfEven_up)

lemma fl_third: "fl (1 / 3) = 6004799503160661 / 18014398509481984"
  using fl_eval_down[of "1 / 3" "- 2" 6004799503160661] by (simp add: power_int_minus)

lemma fl_two_thirds: "fl (2 / 3) = 6004799503160661 / 9007199254740992"
  using fl_eval_down[of "2 / 3" "- 1" 6004799503160661] by (simp add: power_int_minus)

lemma checkpoint_3_0: "checkpoint 3 0 = 2345624805922133 / 140737488355328"
  using fl_eval_down[of "6004799503160661 / 18014398509481984 * 50" 4 4691249611844266]
  by (simp add: checkpoint_def fdiv_def fmul_def fl_third power_int_minus)

lemma checkpoint_3_1: "checkpoint 3 1 = 2345624805922133 / 70368744177664"
  using fl_eval_down[of "6004799503160661 / 9007199254740992 * 50" 5 4691249611844266]
  by (simp add: checkpoint_def fdiv_def fmul_def fl_two_thirds power_int_minus)

lemma checkpoint_3_2: "checkpoint 3 2 = 50"
  using checkpoint_last[of 3] by simp

lemma checkpoints_increasing:
  "n < 2 ^ 32 \<Longrightarrow> sorted_wrt (<) (map (checkpoint n) [0..<n])"
proof -
  assume n: "n < 2 ^ 32"
  have "sorted_wrt (\<lambda>i j. checkpoint n i < checkpoint n j) [0..<n]"
    by (rule sorted_wrt_mono_rel[of _ "(<)"]) (auto intro: checkpoint_less[OF n])
  then show ?thesis by (simp add: sorted_wrt_map)
qed

subsection \<open>The loop and the try block\<close>

lemma addLoop_done: "\<not> i < length fs \<Longrightarrow> addLoop e fs i archive w = (Inr archive, w)"
  by (subst addLoop.simps) simp

lemma addLoop_throw:
  "i < length fs \<Longrightarrow> fileThrows e (name (item_file (fs ! i))) (item_file (fs ! i)) = Some x \<Longrightarrow>
   addLoop e fs i archive w = (Inl x, w)"
  by (subst addLoop.simps) (simp add: Let_def)

lemma addLoop_step:
  "i < length fs \<Longrightarrow> fileThrows e (name (item_file (fs ! i))) (item_file (fs ! i)) = None \<Longrightarrow>
   addLoop e fs i archive w =
     addLoop e fs (Suc i) (zip_file (name (item_file (fs ! i))) (item_file (fs ! i)) archive)
       (setZipProgress (fmul (fdiv (of_nat (i + 1)) (of_nat (length fs))) 50) w)"
  by (subst addLoop.simps) (simp add: Let_def)

lemma addLoop_frame:
  "addLoop e fs i archive w = (r, w') \<Longrightarrow>
     files w' = files w \<and> isCreatingZip w' = isCreatingZip w \<and> toasts w' = toasts w \<and>
     consoleErrors w' = consoleErrors w \<and> downloads w' = downloads w \<and>
     randomCalls w' = randomCalls w \<and> nextUrl w' = nextUrl w \<and> revoked w' = revoked w"
proof (induction e fs i archive w arbitrary: r w' rule: addLoop.induct)
  case (1 e fs i archive w)
  show ?case
  proof (cases "i < length fs")
    case False
    with "1.prems" show ?thesis by (simp add: addLoop_done)
  next
    case True
    show ?thesis
    proof (cases "fileThrows e (name (item_file (fs ! i))) (item_file (fs ! i))")
      case (Some x)
      with True "1.prems" show ?thesis by (simp add: addLoop_throw)
    next
      case None
      with True "1.prems" have
        "addLoop e fs (Suc i) (zip_file (name (item_file (fs ! i))) (item_file (fs ! i)) archive)
           (setZipProgress (fmul (fdiv (of_nat (i + 1)) (of_nat (length fs))) 50) w) = (r, w')"
        by (simp add: addLoop_step)
      from "1.IH"[OF True refl None this] show ?thesis
        by (simp add: setZipProgress_def)
    qed
  qed
qed

lemma tryBody_frame:
  "tryBody e fs w = (r, w') \<Longrightarrow>
     files w' = files w \<and> isCreatingZip w' = isCreatingZip w \<and>
     consoleErrors w' = consoleErrors w \<and>
     randomCalls w' = randomCalls w \<and> nextUrl w' = nextUrl w \<and> revoked w' = revoked w"
  by (auto simp: tryBody_def saveAs_def setZipProgress_def toast_success_def Let_def
      split: prod.splits sum.splits option.splits dest!: addLoop_frame)

lemma createZip_frame:
  "files (snd (createZip e w)) = files w \<and> randomCalls (snd (createZip e w)) = randomCalls w \<and>
   nextUrl (snd (createZip e w)) = nextUrl w \<and> revoked (snd (createZip e w)) = revoked w"
proof (cases "length (files w) = 0")
  case True
  then show ?thesis by (simp add: createZip_def toast_error_def)
next
  case False
  obtain r w2 where tb: "tryBody e (files w) (setZipProgress 0 (setIsCreatingZip True w)) = (r, w2)"
    by (cases "tryBody e (files w) (setZipProgress 0 (setIsCreatingZip True w))")
  from tryBody_frame[OF tb]
  have "files w2 = files w" "randomCalls w2 = randomCalls w" "nextUrl w2 = nextUrl w"
    "revoked w2 = revoked w"
    by (simp_all add: setZipProgress_def setIsCreatingZip_def)
  with False tb show ?thesis
    by (simp add: createZip_def Let_def setZipProgress_def setIsCreatingZip_def
        toast_error_def console_error_def split: sum.splits)
qed

lemma fold_setZipProgress:
  "fold (\<lambda>j. setZipProgress (c j)) js w =
     w\<lparr>zipProgress := (if js = [] then zipProgress w else c (last js)),
       progressLog := progressLog w @ map c js\<rparr>"
  by (induction js arbitrary: w) (simp_all add: setZipProgress_def)

lemma addLoop_ok:
  "addsSucceed e fs \<Longrightarrow>
   addLoop e fs i archive w =
     (Inr (fold addEntry (drop i fs) archive),
      fold (\<lambda>j. setZipProgress (checkpoint (length fs) j)) [i..<length fs] w)"
proof (induction e fs i archive w rule: addLoop.induct)
  case (1 e fs i archive w)
  show ?case
  proof (cases "i < length fs")
    case False
    then show ?thesis by (simp add: addLoop_done)
  next
    case True
    with "1.prems" have nt: "fileThrows e (name (item_file (fs ! i))) (item_file (fs ! i)) = None"
      by (simp add: addsSucceed_def)
    from True have dr: "drop i fs = fs ! i # drop (Suc i) fs"
      by (simp add: Cons_nth_drop_Suc)
    from True have up: "[i..<length fs] = i # [Suc i..<length fs]"
      by (simp add: upt_conv_Cons)
    show ?thesis
      using "1.IH"[OF True refl nt "1.prems"] True nt
      by (simp add: addLoop_step dr up addEntry_def checkpoint_def)
  qed
qed

lemma tryBody_success:
  assumes "buildSucceeds e fs"
  shows "tryBody e fs w =
     (Inr (),
      w\<lparr>zipProgress := 100,
        progressLog := progressLog w @ map (checkpoint (length fs)) [0..<length fs] @ [75, 100],
        toasts := toasts w @ [ToastSuccess ''ZIP file created and downloaded successfully!''],
        downloads := downloads w @ [(blobOf fs, zipFileName (clock e))]\<rparr>)"
  using assms
  by (simp add: tryBody_def buildSucceeds_def addLoop_ok fold_setZipProgress containerOf_def
      generateAsync_def saveAs_def blobOf_def setZipProgress_def toast_success_def)

lemma tryBody_generate_fails:
  assumes "addsSucceed e fs" "generateThrows e (containerOf fs) = Some x"
  shows "tryBody e fs w =
     (Inl x,
      w\<lparr>zipProgress := 75,
        progressLog := progressLog w @ map (checkpoint (length fs)) [0..<length fs] @ [75]\<rparr>)"
  using assms
  by (simp add: tryBody_def addLoop_ok fold_setZipProgress containerOf_def
      generateAsync_def setZipProgress_def)

lemma createZip_success:
  assumes "files w \<noteq> []" "buildSucceeds e (files w)"
  shows "createZip e w =
     (Inr (),
      w\<lparr>isCreatingZip := False, zipProgress := 0,
        progressLog := progressLog w @ [0] @
          map (checkpoint (length (files w))) [0..<length (files w)] @ [75, 100, 0],
        toasts := toasts w @ [ToastSuccess ''ZIP file created and downloaded successfully!''],
        downloads := downloads w @ [(blobOf (files w), zipFileName (clock e))]\<rparr>)"
  using assms
  by (simp add: createZip_def tryBody_success setZipProgress_def setIsCreatingZip_def)

lemma createZip_generate_fails:
  assumes "files w \<noteq> []" "addsSucceed e (files w)"
    "generateThrows e (containerOf (files w)) = Some x"
  shows "createZip e w =
     (Inr (),
      w\<lparr>isCreatingZip := False, zipProgress := 0,
        progressLog := progressLog w @ [0] @
          map (checkpoint (length (files w))) [0..<length (files w)] @ [75, 0],
        toasts := toasts w @ [ToastError ''Failed to create ZIP file''],
        consoleErrors := consoleErrors w @ [(''Error creating ZIP:'', x)]\<rparr>)"
  using assms
  by (simp add: createZip_def tryBody_generate_fails setZipProgress_def setIsCreatingZip_def
      toast_error_def console_error_def)

lemma addLoop_fails:
  "\<exists>j. i \<le> j \<and> j < length fs \<and>
        fileThrows e (name (item_file (fs ! j))) (item_file (fs ! j)) \<noteq> None \<Longrightarrow>
   \<exists>x. fst (addLoop e fs i archive w) = Inl x"
proof (induction e fs i archive w rule: addLoop.induct)
  case (1 e fs i archive w)
  from "1.prems" obtain j where j: "i \<le> j" "j < length fs"
    "fileThrows e (name (item_file (fs ! j))) (item_file (fs ! j)) \<noteq> None" by blast
  then have lt: "i < length fs" by simp
  show ?case
  proof (cases "fileThrows e (name (item_file (fs ! i))) (item_file (fs ! i))")
    case (Some x)
    with lt show ?thesis by (simp add: addLoop_throw)
  next
    case None
    with j have "Suc i \<le> j" by (cases "i = j") auto
    with j have "\<exists>j. Suc i \<le> j \<and> j < length fs \<and>
        fileThrows e (name (item_file (fs ! j))) (item_file (fs ! j)) \<noteq> None" by blast
    from "1.IH"[OF lt refl None this] lt None show ?thesis
      by (simp add: addLoop_step)
  qed
qed

lemma tryBody_Inl_frame:
  "tryBody e fs w = (Inl x, w') \<Longrightarrow> downloads w' = downloads w \<and> toasts w' = toasts w"
  by (auto simp: tryBody_def saveAs_def setZipProgress_def Let_def
      split: prod.splits sum.splits option.splits dest!: addLoop_frame)

lemma tryBody_fails:
  assumes "\<not> buildSucceeds e fs"
  shows "\<exists>x. fst (tryBody e fs w) = Inl x"
proof (cases "addsSucceed e fs")
  case False
  then obtain y where "y \<in> set fs" "fileThrows e (name (item_file y)) (item_file y) \<noteq> None"
    by (auto simp: addsSucceed_def)
  then obtain j where "j < length fs"
    "fileThrows e (name (item_file (fs ! j))) (item_file (fs ! j)) \<noteq> None"
    by (auto simp: in_set_conv_nth)
  then have "\<exists>j. 0 \<le> j \<and> j < length fs \<and>
        fileThrows e (name (item_file (fs ! j))) (item_file (fs ! j)) \<noteq> None" by blast
  from addLoop_fails[OF this, of "[]" w] obtain x where "fst (addLoop e fs 0 [] w) = Inl x" ..
  then show ?thesis
    by (cases "addLoop e fs 0 [] w") (simp add: tryBody_def)
next
  case True
  show ?thesis
  proof (cases "generateThrows e (containerOf fs)")
    case (Some x)
    with True show ?thesis by (simp add: tryBody_generate_fails)
  next
    case None
    with True assms obtain x where "saveAsThrows e (blobOf fs) (zipFileName (clock e)) = Some x"
      by (auto simp: buildSucceeds_def)
    with True None show ?thesis
      by (simp add: tryBody_def addLoop_ok fold_setZipProgress containerOf_def
          generateAsync_def saveAs_def blobOf_def)
  qed
qed

lemma createZip_failure_downloads:
  assumes "files w \<noteq> []" "\<not> buildSucceeds e (files w)"
  shows "downloads (snd (createZip e w)) = downloads w"
proof -
  let ?w1 = "setZipProgress 0 (setIsCreatingZip True w)"
  from tryBody_fails[OF assms(2), of ?w1] obtain x where "fst (tryBody e (files w) ?w1) = Inl x" ..
  then obtain w2 where tb: "tryBody e (files w) ?w1 = (Inl x, w2)"
    by (cases "tryBody e (files w) ?w1") simp
  from tryBody_Inl_frame[OF tb] have "downloads w2 = downloads w"
    by (simp add: setZipProgress_def setIsCreatingZip_def)
  with assms(1) tb show ?thesis
    by (simp add: createZip_def Let_def setZipProgress_def setIsCreatingZip_def
        toast_error_def console_error_def)
qed

lemma addLoop_throw_at:
  "k < length fs \<Longrightarrow> i \<le> k \<Longrightarrow>
   (\<forall>j. i \<le> j \<and> j < k \<longrightarrow> fileThrows e (name (item_file (fs ! j))) (item_file (fs ! j)) = None) \<Longrightarrow>
   fileThrows e (name (item_file (fs ! k))) (item_file (fs ! k)) = Some x \<Longrightarrow>
   addLoop e fs i archive w =
     (Inl x, fold (\<lambda>j. setZipProgress (checkpoint (length fs) j)) [i..<k] w)"
proof (induction e fs i archive w rule: addLoop.induct)
  case (1 e fs i archive w)
  from "1.prems" have lt: "i < length fs" by simp
  show ?case
  proof (cases "i = k")
    case True
    with "1.prems" lt show ?thesis by (simp add: addLoop_throw)
  next
    case False
    with "1.prems" have ik: "i < k" by simp
    with "1.prems" have nt: "fileThrows e (name (item_file (fs ! i))) (item_file (fs ! i)) = None"
      by simp
    from ik have s: "Suc i \<le> k" by simp
    from "1.prems" have r: "\<forall>j. Suc i \<le> j \<and> j < k \<longrightarrow>
        fileThrows e (name (item_file (fs ! j))) (item_file (fs ! j)) = None" by simp
    from ik have up: "[i..<k] = i # [Suc i..<k]" by (simp add: upt_conv_Cons)
    from "1.IH"[OF lt refl nt "1.prems"(1) s r "1.prems"(4)] lt nt show ?thesis
      by (simp add: addLoop_step up checkpoint_def)
  qed
qed

lemma createZip_add_throws:
  assumes "k < length (files w)"
    and "\<forall>j<k. fileThrows e (name (item_file (files w ! j))) (item_file (files w ! j)) = None"
    and "fileThrows e (name (item_file (files w ! k))) (item_file (files w ! k)) = Some x"
  shows "progressLog (snd (createZip e w)) =
           progressLog w @ [0] @ map (checkpoint (length (files w))) [0..<k] @ [0]"
proof -
  from assms(1) have ne: "files w \<noteq> []" by auto
  from assms(2) have r: "\<forall>j. 0 \<le> j \<and> j < k \<longrightarrow>
      fileThrows e (name (item_file (files w ! j))) (item_file (files w ! j)) = None" by simp
  note a = addLoop_throw_at[OF assms(1) _ r assms(3), of "[]"]
  from ne show ?thesis
    by (simp add: createZip_def tryBody_def a fold_setZipProgress setZipProgress_def
        setIsCreatingZip_def toast_error_def console_error_def)
qed

lemma createZip_generated:
  assumes "files w \<noteq> []" and "addsSucceed e (files w)"
    and "generateThrows e (containerOf (files w)) = None"
  shows "progressLog (snd (createZip e w)) =
           progressLog w @ [0] @ map (checkpoint (length (files w))) [0..<length (files w)] @
           [75, 100, 0]"
proof (cases "saveAsThrows e (blobOf (files w)) (zipFileName (clock e))")
  case None
  with assms have "buildSucceeds e (files w)" by (simp add: buildSucceeds_def)
  with assms(1) show ?thesis by (simp add: createZip_success)
next
  case (Some x)
  with assms show ?thesis
    by (simp add: createZip_def tryBody_def addLoop_ok fold_setZipProgress containerOf_def
        generateAsync_def saveAs_def blobOf_def setZipProgress_def setIsCreatingZip_def
        toast_error_def console_error_def)
qed

subsection \<open>The archive container\<close>

lemma update_fresh: "k \<notin> fst ` set al \<Longrightarrow> AList.update k v al = al @ [(k, v)]"
  by (induction al) auto

lemma fold_addEntry_distinct:
  "distinct (map fileName fs) \<Longrightarrow> fst ` set acc \<inter> set (map fileName fs) = {} \<Longrightarrow>
   fold addEntry fs acc = acc @ map (\<lambda>x. (fileName x, item_file x)) fs"
proof (induction fs arbitrary: acc)
  case Nil
  then show ?case by simp
next
  case (Cons x fs)
  from Cons.prems have fresh: "fileName x \<notin> fst ` set acc" by auto
  then have step: "addEntry x acc = acc @ [(fileName x, item_file x)]"
    by (simp add: addEntry_def zip_file_def fileName_def update_fresh)
  from Cons.prems have "fst ` set (acc @ [(fileName x, item_file x)]) \<inter> set (map fileName fs) = {}"
    by auto
  with Cons.IH[of "acc @ [(fileName x, item_file x)]"] Cons.prems step show ?case by simp
qed

lemma containerOf_distinct:
  "distinct (map fileName fs) \<Longrightarrow> containerOf fs = map (\<lambda>x. (fileName x, item_file x)) fs"
  using fold_addEntry_distinct[of fs "[]"] by (simp add: containerOf_def)

lemma fold_addEntry_keys:
  "fst ` set (fold addEntry fs acc) = fst ` set acc \<union> fileName ` set fs"
  by (induction fs arbitrary: acc)
    (auto simp: addEntry_def zip_file_def fileName_def dom_update)

lemma fold_addEntry_distinct_keys:
  "distinct (map fst acc) \<Longrightarrow> distinct (map fst (fold addEntry fs acc))"
  by (induction fs arbitrary: acc) (simp_all add: addEntry_def zip_file_def distinct_update)

lemma length_containerOf: "length (containerOf fs) = card (fileName ` set fs)"
proof -
  have d: "distinct (map fst (containerOf fs))"
    by (simp add: containerOf_def fold_addEntry_distinct_keys)
  have "length (containerOf fs) = length (map fst (containerOf fs))" by simp
  also have "\<dots> = card (set (map fst (containerOf fs)))"
    using d by (simp only: distinct_card)
  also have "set (map fst (containerOf fs)) = fileName ` set fs"
    by (simp add: containerOf_def fold_addEntry_keys)
  finally show ?thesis .
qed

lemma containerOf_snoc: "containerOf (fs @ [x]) = addEntry x (containerOf fs)"
  by (simp add: containerOf_def)

lemma map_of_containerOf:
  "map_of (containerOf fs) n =
     (if n \<in> fileName ` set fs
      then Some (item_file (last (filter (\<lambda>y. fileName y = n) fs))) else None)"
proof (induction fs rule: rev_induct)
  case Nil
  then show ?case by (simp add: containerOf_def)
next
  case (snoc x fs)
  show ?case
    using snoc.IH
    by (auto simp: containerOf_snoc addEntry_def zip_file_def update_conv' fileName_def)
qed

lemma map_of_entries:
  "map_of (map (\<lambda>(nm, f). (nm, bytes f)) al) n = map_option bytes (map_of al n)"
  by (induction al) auto

lemma extractEntry_blobOf:
  "extractEntry (blobOf fs) n =
     (if n \<in> fileName ` set fs
      then Some (bytes (item_file (last (filter (\<lambda>y. fileName y = n) fs)))) else None)"
  by (simp add: extractEntry_def blobOf_def map_of_entries map_of_containerOf)

lemma last_filter_distinct:
  "distinct (map fileName fs) \<Longrightarrow> x \<in> set fs \<Longrightarrow> filter (\<lambda>y. fileName y = fileName x) fs = [x]"
proof (induction fs)
  case Nil
  then show ?case by simp
next
  case (Cons a fs)
  then show ?case
    by (auto simp: filter_empty_conv image_iff)
qed

lemma card_names_less:
  "\<not> distinct (map fileName fs) \<Longrightarrow> card (fileName ` set fs) < length fs"
proof -
  assume nd: "\<not> distinct (map fileName fs)"
  have "card (set (map fileName fs)) \<le> length (map fileName fs)" by (rule card_length)
  moreover have "card (set (map fileName fs)) \<noteq> length (map fileName fs)"
    using nd card_distinct[of "map fileName fs"] by blast
  ultimately show ?thesis by simp
qed

subsection \<open>The file name\<close>

lemma length_dec: "length (dec w k) = w"
  by (induction w arbitrary: k) simp_all

lemma isDigit_digit: "isDigit (digit d)"
proof -
  have "d mod 10 < length ''0123456789''" by simp
  then have "''0123456789'' ! (d mod 10) \<in> set ''0123456789''" by (rule nth_mem)
  then show ?thesis by (simp only: isDigit_def digit_def)
qed

lemma digit_not_colon: "digit d \<noteq> CHR '':''"
  using isDigit_digit[of d] by (auto simp: isDigit_def)

lemma digit_eq_iff: "digit a = digit b \<longleftrightarrow> a mod 10 = b mod 10"
proof -
  have d: "distinct ''0123456789''" by simp
  have "a mod 10 < length ''0123456789''" "b mod 10 < length ''0123456789''" by simp_all
  with d show ?thesis unfolding digit_def by (simp only: nth_eq_iff_index_eq)
qed

lemma dec2: "dec 2 k = [digit (k div 10 mod 10), digit (k mod 10)]"
  by (simp add: numeral_2_eq_2)

lemma dec3: "dec 3 k = [digit (k div 10 div 10 mod 10), digit (k div 10 mod 10), digit (k mod 10)]"
  by (simp add: numeral_3_eq_3)

lemma dec4:
  "dec 4 k = [digit (k div 10 div 10 div 10 mod 10), digit (k div 10 div 10 mod 10),
              digit (k div 10 mod 10), digit (k mod 10)]"
proof -
  have "dec 4 k = dec (Suc 3) k" by simp
  then show ?thesis by (simp only: dec.simps dec3) simp
qed

lemma dec6:
  "dec 6 k = [digit (k div 10 div 10 div 10 div 10 div 10 mod 10),
              digit (k div 10 div 10 div 10 div 10 mod 10),
              digit (k div 10 div 10 div 10 mod 10), digit (k div 10 div 10 mod 10),
              digit (k div 10 mod 10), digit (k mod 10)]"
proof -
  have "dec 6 k = dec (Suc (Suc 4)) k" by simp
  then show ?thesis by (simp only: dec.simps dec4) simp
qed

lemma zipFileName_four:
  "fourDigitYear d \<Longrightarrow>
   zipFileName d =
     ''file-fling-'' @ dec 4 (nat (year d)) @ ''-'' @ dec 2 (month d) @ ''-'' @ dec 2 (day d) @
     ''T'' @ dec 2 (hour d) @ ''-'' @ dec 2 (minute d) @ ''-'' @ dec 2 (second d) @ ''.zip''"
  by (simp add: zipFileName_def toISOString_def fourDigitYear_def slice_def replaceAll_def
      dec2 dec3 dec4 digit_not_colon Let_def)

lemma zipNamePattern_unfold:
  "zipNamePattern =
     map Lit ''file-fling-'' @ [Digit, Digit, Digit, Digit, Lit CHR ''-'', Digit, Digit,
       Lit CHR ''-'', Digit, Digit, Lit CHR ''T'', Digit, Digit, Lit CHR ''-'', Digit, Digit,
       Lit CHR ''-'', Digit, Digit] @ map Lit ''.zip''"
  by (simp add: zipNamePattern_def numeral_eq_Suc)

lemma zipFileName_matches: "fourDigitYear d \<Longrightarrow> matches zipNamePattern (zipFileName d)"
  by (simp add: zipFileName_four zipNamePattern_unfold dec2 dec4 isDigit_digit)

lemma zipFileName_expanded:
  "\<not> fourDigitYear d \<Longrightarrow> \<not> matches zipNamePattern (zipFileName d)"
  by (simp add: zipFileName_def toISOString_def fourDigitYear_def slice_def replaceAll_def
      dec6 zipNamePattern_unfold isDigit_def Let_def)

lemma zipFileName_matches_iff:
  "matches zipNamePattern (zipFileName d) \<longleftrightarrow> fourDigitYear d"
  using zipFileName_expanded[of d] zipFileName_matches[of d] by blast

lemma dec_inj: "a < 10 ^ w \<Longrightarrow> b < 10 ^ w \<Longrightarrow> dec w a = dec w b \<Longrightarrow> a = b"
proof (induction w arbitrary: a b)
  case 0
  then show ?case by simp
next
  case (Suc w)
  from Suc.prems(3) have e: "dec w (a div 10) = dec w (b div 10)" "digit (a mod 10) = digit (b mod 10)"
    by (simp_all add: length_dec)
  from Suc.prems(1,2) have "a div 10 < 10 ^ w" "b div 10 < 10 ^ w"
    by (simp_all add: less_mult_imp_div_less mult.commute)
  from Suc.IH[OF this e(1)] have q: "a div 10 = b div 10" .
  from e(2) have r: "a mod 10 = b mod 10" by (simp add: digit_eq_iff)
  have "a = 10 * (a div 10) + a mod 10" by simp
  also have "\<dots> = 10 * (b div 10) + b mod 10" by (simp only: q r)
  also have "\<dots> = b" by simp
  finally show ?case .
qed

lemma zipFileName_eq_iff:
  assumes "fourDigitYear a" "fourDigitYear b" "validDate a" "validDate b"
  shows "zipFileName a = zipFileName b \<longleftrightarrow> sameSecond a b"
proof
  assume "sameSecond a b"
  with assms show "zipFileName a = zipFileName b"
    by (simp add: zipFileName_four sameSecond_def)
next
  assume eq: "zipFileName a = zipFileName b"
  with assms(1,2) have
    y: "dec 4 (nat (year a)) = dec 4 (nat (year b))" and
    m: "dec 2 (month a) = dec 2 (month b)" and
    d: "dec 2 (day a) = dec 2 (day b)" and
    h: "dec 2 (hour a) = dec 2 (hour b)" and
    mi: "dec 2 (minute a) = dec 2 (minute b)" and
    s: "dec 2 (second a) = dec 2 (second b)"
    by (simp_all add: zipFileName_four length_dec)
  from assms(1,2) have "nat (year a) < 10 ^ 4" "nat (year b) < 10 ^ 4"
    unfolding fourDigitYear_def by (simp, linarith)+
  from dec_inj[OF this y] assms(1,2) have ya: "year a = year b"
    unfolding fourDigitYear_def by linarith
  from assms(3,4) have
    lt: "month a < 10 ^ 2" "month b < 10 ^ 2" "day a < 10 ^ 2" "day b < 10 ^ 2"
      "hour a < 10 ^ 2" "hour b < 10 ^ 2" "minute a < 10 ^ 2" "minute b < 10 ^ 2"
      "second a < 10 ^ 2" "second b < 10 ^ 2"
    by (simp_all add: validDate_def)
  have "month a = month b" by (rule dec_inj[OF lt(1) lt(2) m])
  moreover have "day a = day b" by (rule dec_inj[OF lt(3) lt(4) d])
  moreover have "hour a = hour b" by (rule dec_inj[OF lt(5) lt(6) h])
  moreover have "minute a = minute b" by (rule dec_inj[OF lt(7) lt(8) mi])
  moreover have "second a = second b" by (rule dec_inj[OF lt(9) lt(10) s])
  ultimately show "sameSecond a b" using ya by (simp add: sameSecond_def)
qed

subsection \<open>The staging list\<close>

lemma previewsOf_append: "previewsOf (xs @ ys) = previewsOf xs @ previewsOf ys"
  by (induction xs) (simp_all split: option.splits)

lemma fold_revokePreview:
  "fold revokePreview fs w = w\<lparr>revoked := revoked w @ previewsOf fs\<rparr>"
  by (induction fs arbitrary: w)
    (simp_all add: revokePreview_def revokeObjectURL_def split: option.splits)

lemma clearAllFiles_eq:
  "clearAllFiles w =
     w\<lparr>files := [], revoked := revoked w @ previewsOf (files w),
       toasts := toasts w @ [ToastSuccess ''All files cleared'']\<rparr>"
  by (simp add: clearAllFiles_def fold_revokePreview setFiles_def toast_success_def)

lemma newItem_eq:
  "newItem rnd f w =
     (if startsWith (type f) ''image/''
      then (\<lparr>item_id = drawnId rnd (randomCalls w), item_file = f, preview = Some (nextUrl w)\<rparr>,
            w\<lparr>randomCalls := Suc (randomCalls w), nextUrl := Suc (nextUrl w)\<rparr>)
      else (\<lparr>item_id = drawnId rnd (randomCalls w), item_file = f, preview = None\<rparr>,
            w\<lparr>randomCalls := Suc (randomCalls w)\<rparr>))"
  by (simp add: newItem_def random36_def createObjectURL_def drawnId_def)

lemma mapItems_spec:
  "mapItems rnd fs w = (items, w') \<Longrightarrow>
     map item_file items = fs \<and>
     map item_id items = map (drawnId rnd) [randomCalls w..<randomCalls w + length fs] \<and>
     (\<forall>x \<in> set items. (preview x \<noteq> None) = startsWith (type (item_file x)) ''image/'') \<and>
     nextUrl w \<le> nextUrl w' \<and>
     previewsOf items = [nextUrl w..<nextUrl w'] \<and>
     w' = w\<lparr>randomCalls := randomCalls w + length fs, nextUrl := nextUrl w'\<rparr>"
proof (induction fs arbitrary: w items w')
  case Nil
  then show ?case by simp
next
  case (Cons f fs)
  obtain x w1 where n: "newItem rnd f w = (x, w1)" by (cases "newItem rnd f w")
  obtain xs w2 where m: "mapItems rnd fs w1 = (xs, w2)" by (cases "mapItems rnd fs w1")
  from Cons.prems n m have it: "items = x # xs" "w' = w2" by simp_all
  from Cons.IH[OF m] have
    ih1: "map item_file xs = fs" and
    ih2: "map item_id xs = map (drawnId rnd) [randomCalls w1..<randomCalls w1 + length fs]" and
    ih3: "\<forall>x \<in> set xs. (preview x \<noteq> None) = startsWith (type (item_file x)) ''image/''" and
    ih4: "nextUrl w1 \<le> nextUrl w2" and
    ih5: "previewsOf xs = [nextUrl w1..<nextUrl w2]" and
    ih6: "w2 = w1\<lparr>randomCalls := randomCalls w1 + length fs, nextUrl := nextUrl w2\<rparr>"
    by blast+
  from n have xi: "item_id x = drawnId rnd (randomCalls w)" "item_file x = f"
    and r1: "randomCalls w1 = Suc (randomCalls w)"
    by (auto simp: newItem_eq split: if_splits)
  have c1: "map item_file items = f # fs" by (simp add: it xi ih1)
  have c2: "map item_id items = map (drawnId rnd) [randomCalls w..<randomCalls w + length (f # fs)]"
    by (simp add: it xi ih2 r1 upt_conv_Cons del: upt_Suc)
  show ?case
  proof (cases "startsWith (type f) ''image/''")
    case True
    with n have x: "x = \<lparr>item_id = drawnId rnd (randomCalls w), item_file = f, preview = Some (nextUrl w)\<rparr>"
      and w1: "w1 = w\<lparr>randomCalls := Suc (randomCalls w), nextUrl := Suc (nextUrl w)\<rparr>"
      by (simp_all add: newItem_eq)
    from ih3 True have c3: "\<forall>x \<in> set items. (preview x \<noteq> None) = startsWith (type (item_file x)) ''image/''"
      by (simp add: it x)
    from ih4 have le: "Suc (nextUrl w) \<le> nextUrl w2" by (simp add: w1)
    then have c4: "nextUrl w \<le> nextUrl w'" by (simp add: it)
    from le have "[nextUrl w..<nextUrl w2] = nextUrl w # [Suc (nextUrl w)..<nextUrl w2]"
      by (simp add: upt_conv_Cons)
    with ih5 have c5: "previewsOf items = [nextUrl w..<nextUrl w']" by (simp add: it x w1)
    have c6: "w' = w\<lparr>randomCalls := randomCalls w + length (f # fs), nextUrl := nextUrl w'\<rparr>"
      by (subst it(2), subst ih6) (simp add: w1 it)
    from c1 c2 c3 c4 c5 c6 show ?thesis by blast
  next
    case False
    with n have x: "x = \<lparr>item_id = drawnId rnd (randomCalls w), item_file = f, preview = None\<rparr>"
      and w1: "w1 = w\<lparr>randomCalls := Suc (randomCalls w)\<rparr>"
      by (simp_all add: newItem_eq)
    from ih3 False have c3: "\<forall>x \<in> set items. (preview x \<noteq> None) = startsWith (type (item_file x)) ''image/''"
      by (simp add: it x)
    from ih4 have c4: "nextUrl w \<le> nextUrl w'" by (simp add: it w1)
    from ih5 have c5: "previewsOf items = [nextUrl w..<nextUrl w']" by (simp add: it x w1)
    have c6: "w' = w\<lparr>randomCalls := randomCalls w + length (f # fs), nextUrl := nextUrl w'\<rparr>"
      by (subst it(2), subst ih6) (simp add: w1 it)
    from c1 c2 c3 c4 c5 c6 show ?thesis by blast
  qed
qed

lemma addFiles_spec:
  obtains items where
    "map item_file items = newFiles"
    "map item_id items = map (drawnId rnd) [randomCalls w..<randomCalls w + length newFiles]"
    "\<forall>x \<in> set items. (preview x \<noteq> None) = startsWith (type (item_file x)) ''image/''"
    "previewsOf items = [nextUrl w..<nextUrl w + length (previewsOf items)]"
    "addFiles rnd newFiles w =
       w\<lparr>files := files w @ items,
         randomCalls := randomCalls w + length newFiles,
         nextUrl := nextUrl w + length (previewsOf items),
         toasts := toasts w @ [ToastSuccess (''Added '' @ toString (length newFiles) @ '' file(s)'')]\<rparr>"
proof -
  obtain items w1 where m: "mapItems rnd newFiles w = (items, w1)"
    by (cases "mapItems rnd newFiles w")
  from mapItems_spec[OF m] have
    s1: "map item_file items = newFiles" and
    s2: "map item_id items = map (drawnId rnd) [randomCalls w..<randomCalls w + length newFiles]" and
    s3: "\<forall>x \<in> set items. (preview x \<noteq> None) = startsWith (type (item_file x)) ''image/''" and
    s4: "nextUrl w \<le> nextUrl w1" and
    s5: "previewsOf items = [nextUrl w..<nextUrl w1]" and
    s6: "w1 = w\<lparr>randomCalls := randomCalls w + length newFiles, nextUrl := nextUrl w1\<rparr>"
    by blast+
  from s5 have "length (previewsOf items) = nextUrl w1 - nextUrl w" by simp
  with s4 have n1: "nextUrl w1 = nextUrl w + length (previewsOf items)" by simp
  have a: "addFiles rnd newFiles w =
       w\<lparr>files := files w @ items,
         randomCalls := randomCalls w + length newFiles,
         nextUrl := nextUrl w + length (previewsOf items),
         toasts := toasts w @ [ToastSuccess (''Added '' @ toString (length newFiles) @ '' file(s)'')]\<rparr>"
    unfolding addFiles_def m
    by (subst s6) (simp add: setFiles_def toast_success_def n1)
  from s5 n1 have p: "previewsOf items = [nextUrl w..<nextUrl w + length (previewsOf items)]" by simp
  from that[OF s1 s2 s3 p a] show ?thesis .
qed

lemma find_None_id: "i \<notin> item_id ` set fs \<Longrightarrow> find (\<lambda>f. item_id f = i) fs = None"
  by (induction fs) auto

lemma filter_absent_id: "i \<notin> item_id ` set fs \<Longrightarrow> filter (\<lambda>f. item_id f \<noteq> i) fs = fs"
  by (induction fs) auto

lemma removeFile_absent: "i \<notin> item_id ` set (files w) \<Longrightarrow> removeFile i w = w"
  by (simp add: removeFile_def Let_def find_None_id filter_absent_id setFiles_def)

lemma find_present_id:
  "distinct (map item_id fs) \<Longrightarrow> x \<in> set fs \<Longrightarrow> find (\<lambda>f. item_id f = item_id x) fs = Some x"
  by (induction fs) (auto simp: image_iff)

lemma filter_present_id:
  "distinct (map item_id fs) \<Longrightarrow> x \<in> set fs \<Longrightarrow>
   filter (\<lambda>f. item_id f \<noteq> item_id x) fs = remove1 x fs"
  by (induction fs) (auto simp: image_iff filter_absent_id)

lemma removeFile_present:
  "distinct (map item_id (files w)) \<Longrightarrow> x \<in> set (files w) \<Longrightarrow>
   removeFile (item_id x) w =
     w\<lparr>files := remove1 x (files w),
       revoked := revoked w @ (case preview x of Some u \<Rightarrow> [u] | None \<Rightarrow> [])\<rparr>"
  by (simp add: removeFile_def Let_def find_present_id filter_present_id setFiles_def
      revokePreview_def revokeObjectURL_def split: option.splits)

lemma distinct_items: "distinct (map item_id fs) \<Longrightarrow> distinct fs"
  by (rule distinct_map[THEN iffD1, THEN conjunct1])

lemma remove1_split: "x \<in> set fs \<Longrightarrow> \<exists>ys zs. fs = ys @ x # zs \<and> remove1 x fs = ys @ zs"
proof -
  assume "x \<in> set fs"
  then obtain ys zs where s: "fs = ys @ x # zs" "x \<notin> set ys" by (auto dest: split_list_first)
  then have "remove1 x fs = ys @ zs" by (simp add: remove1_append)
  with s(1) show ?thesis by blast
qed

lemma addFiles_ids_distinct:
  assumes inj: "inj_on (drawnId rnd) {..<randomCalls w + length newFiles}"
    and d: "distinct (map item_id (files w))"
    and s: "set (map item_id (files w)) \<subseteq> drawnId rnd ` {..<randomCalls w}"
  shows "distinct (map item_id (files (addFiles rnd newFiles w))) \<and>
         set (map item_id (files (addFiles rnd newFiles w))) \<subseteq>
           drawnId rnd ` {..<randomCalls (addFiles rnd newFiles w)}"
proof -
  obtain items where
    ids: "map item_id items = map (drawnId rnd) [randomCalls w..<randomCalls w + length newFiles]" and
    eq: "addFiles rnd newFiles w =
       w\<lparr>files := files w @ items,
         randomCalls := randomCalls w + length newFiles,
         nextUrl := nextUrl w + length (previewsOf items),
         toasts := toasts w @ [ToastSuccess (''Added '' @ toString (length newFiles) @ '' file(s)'')]\<rparr>"
    by (rule addFiles_spec[where newFiles=newFiles and rnd=rnd and w=w])
  let ?r = "randomCalls w" and ?n = "length newFiles"
  have up: "{?r..<?r + ?n} \<subseteq> {..<?r + ?n}" and lo: "{..<?r} \<subseteq> {..<?r + ?n}" by auto
  have dn: "distinct (map item_id items)"
    unfolding ids using inj_on_subset[OF inj up] by (simp add: distinct_map)
  have sn: "set (map item_id items) = drawnId rnd ` {?r..<?r + ?n}"
    unfolding ids by simp
  have disj: "set (map item_id (files w)) \<inter> set (map item_id items) = {}"
  proof -
    have "drawnId rnd ` {..<?r} \<inter> drawnId rnd ` {?r..<?r + ?n} =
        drawnId rnd ` ({..<?r} \<inter> {?r..<?r + ?n})"
      by (rule inj_on_image_Int[symmetric, OF inj lo up])
    also have "{..<?r} \<inter> {?r..<?r + ?n} = {}" by auto
    finally have "drawnId rnd ` {..<?r} \<inter> drawnId rnd ` {?r..<?r + ?n} = {}" by simp
    with s sn show ?thesis by blast
  qed
  have sub: "drawnId rnd ` {..<?r} \<union> drawnId rnd ` {?r..<?r + ?n} \<subseteq> drawnId rnd ` {..<?r + ?n}"
    by auto
  from d dn disj have 1: "distinct (map item_id (files w @ items))" by simp
  from s sn sub have 2: "set (map item_id (files w @ items)) \<subseteq> drawnId rnd ` {..<?r + ?n}"
    by (simp only: map_append set_append) blast
  from 1 2 show ?thesis by (simp add: eq)
qed

subsection \<open>The invariant of a session\<close>

lemma handlesInv_initial: "handlesInv rnd initialWorld"
  by (simp add: handlesInv_def initialWorld_def)

lemma handlesInv_addFiles:
  assumes inj: "inj_on (drawnId rnd) {..<randomCalls w + length newFiles}"
    and inv: "handlesInv rnd w"
  shows "handlesInv rnd (addFiles rnd newFiles w)"
proof -
  obtain items where
    pv: "previewsOf items = [nextUrl w..<nextUrl w + length (previewsOf items)]" and
    eq: "addFiles rnd newFiles w =
       w\<lparr>files := files w @ items,
         randomCalls := randomCalls w + length newFiles,
         nextUrl := nextUrl w + length (previewsOf items),
         toasts := toasts w @ [ToastSuccess (''Added '' @ toString (length newFiles) @ '' file(s)'')]\<rparr>"
    by (rule addFiles_spec[where newFiles=newFiles and rnd=rnd and w=w])
  let ?m = "length (previewsOf items)"
  from inv have d: "distinct (map item_id (files w))"
    and s: "set (map item_id (files w)) \<subseteq> drawnId rnd ` {..<randomCalls w}"
    and dp: "distinct (previewsOf (files w) @ revoked w)"
    and sp: "set (previewsOf (files w) @ revoked w) = {..<nextUrl w}"
    by (simp_all add: handlesInv_def)
  note a = addFiles_ids_distinct[OF inj d s]
  have sn: "set (previewsOf items) = {nextUrl w..<nextUrl w + ?m}"
    by (subst pv) simp
  have dn: "distinct (previewsOf items)" by (subst pv) simp
  from sp sn have disj: "set (previewsOf (files w) @ revoked w) \<inter> set (previewsOf items) = {}"
    by auto
  from dp dn disj have 3: "distinct (previewsOf (files w @ items) @ revoked w)"
    by (auto simp: previewsOf_append)
  have "{..<nextUrl w} \<union> {nextUrl w..<nextUrl w + ?m} = {..<nextUrl w + ?m}" by auto
  with sp sn have 4: "set (previewsOf (files w @ items) @ revoked w) = {..<nextUrl w + ?m}"
    by (auto simp: previewsOf_append)
  from a 3 4 show ?thesis
    unfolding handlesInv_def by (simp add: eq)
qed

lemma handlesInv_removeFile:
  assumes inv: "handlesInv rnd w"
  shows "handlesInv rnd (removeFile i w)"
proof (cases "i \<in> item_id ` set (files w)")
  case False
  with inv show ?thesis by (simp add: removeFile_absent)
next
  case True
  then obtain x where x: "x \<in> set (files w)" "i = item_id x" by auto
  from inv have d: "distinct (map item_id (files w))"
    and s: "set (map item_id (files w)) \<subseteq> drawnId rnd ` {..<randomCalls w}"
    and dp: "distinct (previewsOf (files w) @ revoked w)"
    and sp: "set (previewsOf (files w) @ revoked w) = {..<nextUrl w}"
    by (simp_all add: handlesInv_def)
  let ?pv = "case preview x of Some u \<Rightarrow> [u] | None \<Rightarrow> []"
  note eq = removeFile_present[OF d x(1)]
  from remove1_split[OF x(1)] obtain ys zs where
    sp1: "files w = ys @ x # zs" and sp2: "remove1 x (files w) = ys @ zs" by blast
  have pf: "previewsOf (files w) = previewsOf ys @ ?pv @ previewsOf zs"
    by (simp add: sp1 previewsOf_append split: option.splits)
  have pr: "previewsOf (remove1 x (files w)) = previewsOf ys @ previewsOf zs"
    by (simp add: sp2 previewsOf_append)
  from d have "distinct (map item_id (ys @ zs))" by (simp add: sp1)
  then have 1: "distinct (map item_id (remove1 x (files w)))" by (simp only: sp2)
  from s have "set (map item_id (ys @ zs)) \<subseteq> drawnId rnd ` {..<randomCalls w}"
    by (auto simp: sp1)
  then have 2: "set (map item_id (remove1 x (files w))) \<subseteq> drawnId rnd ` {..<randomCalls w}"
    by (simp only: sp2)
  from dp have 3: "distinct (previewsOf (remove1 x (files w)) @ revoked w @ ?pv)"
    unfolding pf pr by (auto split: option.splits)
  from sp have 4: "set (previewsOf (remove1 x (files w)) @ revoked w @ ?pv) = {..<nextUrl w}"
    unfolding pf pr by (auto split: option.splits)
  from 1 2 3 4 show ?thesis
    unfolding handlesInv_def x(2) eq by simp
qed

lemma handlesInv_clearAllFiles:
  assumes inv: "handlesInv rnd w"
  shows "handlesInv rnd (clearAllFiles w)"
  using inv unfolding handlesInv_def clearAllFiles_eq by auto

lemma handlesInv_createZip:
  assumes inv: "handlesInv rnd w"
  shows "handlesInv rnd (snd (createZip e w))"
  using inv createZip_frame[of e w] unfolding handlesInv_def by simp

text \<open>The number of draws made: an addition makes one per file, nothing else draws.\<close>

lemma randomCalls_addFiles:
  "randomCalls (addFiles rnd newFiles w) = randomCalls w + length newFiles"
proof -
  obtain items where
    "addFiles rnd newFiles w =
       w\<lparr>files := files w @ items,
         randomCalls := randomCalls w + length newFiles,
         nextUrl := nextUrl w + length (previewsOf items),
         toasts := toasts w @ [ToastSuccess (''Added '' @ toString (length newFiles) @ '' file(s)'')]\<rparr>"
    by (rule addFiles_spec[where newFiles=newFiles and rnd=rnd and w=w])
  then show ?thesis by simp
qed

lemma randomCalls_removeFile: "randomCalls (removeFile i w) = randomCalls w"
  by (simp add: removeFile_def revokePreview_def revokeObjectURL_def setFiles_def Let_def
      split: option.splits)

lemma randomCalls_step: "randomCalls w \<le> randomCalls (step rnd a w)"
  by (cases a)
    (simp_all add: randomCalls_addFiles randomCalls_removeFile clearAllFiles_eq createZip_frame)

lemma handlesInv_step:
  "inj_on (drawnId rnd) {..<randomCalls (step rnd a w)} \<Longrightarrow> handlesInv rnd w \<Longrightarrow>
   handlesInv rnd (step rnd a w)"
  by (cases a)
    (simp_all add: randomCalls_addFiles handlesInv_addFiles handlesInv_removeFile
      handlesInv_clearAllFiles handlesInv_createZip)

lemma handlesInv_fold:
  "inj_on (drawnId rnd) {..<randomCalls (fold (step rnd) acts w)} \<Longrightarrow> handlesInv rnd w \<Longrightarrow>
   handlesInv rnd (fold (step rnd) acts w)"
proof (induction acts rule: rev_induct)
  case Nil
  then show ?case by simp
next
  case (snoc a acts)
  let ?v = "fold (step rnd) acts w"
  from snoc.prems(1) have i: "inj_on (drawnId rnd) {..<randomCalls (step rnd a ?v)}" by simp
  have "{..<randomCalls ?v} \<subseteq> {..<randomCalls (step rnd a ?v)}"
    using randomCalls_step[of ?v rnd a] by auto
  with i have "inj_on (drawnId rnd) {..<randomCalls ?v}" by (rule inj_on_subset)
  from snoc.IH[OF this snoc.prems(2)] have "handlesInv rnd ?v" .
  from handlesInv_step[OF i this] show ?case by simp
qed

lemma count_list_distinct: "distinct xs \<Longrightarrow> count_list xs x = (if x \<in> set xs then 1 else 0)"
  by (induction xs) auto

subsection \<open>The sample inputs, evaluated\<close>

lemma buildSucceeds_calm: "buildSucceeds (calmEnv now) fs"
  by (simp add: buildSucceeds_def addsSucceed_def calmEnv_def)

lemma adds_unreadable: "addsSucceed (unreadableEnv now) fs"
  by (simp add: addsSucceed_def unreadableEnv_def)

lemma toString_small: "n < 10 \<Longrightarrow> toString n = [digit n]"
  by (subst toString.simps) simp

lemma stagedTwo_eq:
  "stagedTwo =
     initialWorld\<lparr>files := [\<lparr>item_id = ''x'', item_file = aTxt, preview = None\<rparr>,
                             \<lparr>item_id = ''xx'', item_file = bPng, preview = Some 0\<rparr>],
                   toasts := [ToastSuccess ''Added 2 file(s)''],
                   randomCalls := 2, nextUrl := 1\<rparr>"
  by (simp add: stagedTwo_def addFiles_def newItem_def random36_def createObjectURL_def
      startsWith_def substring_def setFiles_def toast_success_def toString_small digit_def
      sampleRnd_def initialWorld_def aTxt_def bPng_def)

lemma stagedCollided_eq:
  "stagedCollided =
     initialWorld\<lparr>files := [\<lparr>item_id = ''8k2m1'', item_file = aTxt, preview = None\<rparr>,
                             \<lparr>item_id = ''8k2m1'', item_file = bPng, preview = Some 0\<rparr>],
                   toasts := [ToastSuccess ''Added 2 file(s)''],
                   randomCalls := 2, nextUrl := 1\<rparr>"
  by (simp add: stagedCollided_def addFiles_def newItem_def random36_def createObjectURL_def
      startsWith_def substring_def setFiles_def toast_success_def toString_small digit_def
      collidingRnd_def initialWorld_def aTxt_def bPng_def)

lemma removeFile_collided:
  "removeFile ''8k2m1'' stagedCollided =
     initialWorld\<lparr>files := [], toasts := [ToastSuccess ''Added 2 file(s)''],
                   randomCalls := 2, nextUrl := 1\<rparr>"
  by (simp add: stagedCollided_eq removeFile_def revokePreview_def setFiles_def initialWorld_def)

lemma removeFile_stagedTwo:
  "removeFile ''xx'' stagedTwo =
     initialWorld\<lparr>files := [\<lparr>item_id = ''x'', item_file = aTxt, preview = None\<rparr>],
                   toasts := [ToastSuccess ''Added 2 file(s)''],
                   randomCalls := 2, nextUrl := 1, revoked := [0]\<rparr>"
  by (simp add: stagedTwo_eq removeFile_def revokePreview_def revokeObjectURL_def setFiles_def
      initialWorld_def)

lemma inj_sampleRnd: "inj (drawnId sampleRnd)"
proof (rule injI)
  fix a b assume "drawnId sampleRnd a = drawnId sampleRnd b"
  then have "replicate (Suc a) CHR ''x'' = replicate (Suc b) CHR ''x''"
    by (simp add: drawnId_def sampleRnd_def substring_def)
  then have "length (replicate (Suc a) CHR ''x'') = length (replicate (Suc b) CHR ''x'')"
    by (rule arg_cong)
  then show "a = b" by simp
qed

lemma sampleTrace_eq:
  "fold (step sampleRnd) sampleTrace initialWorld =
     initialWorld\<lparr>files := [\<lparr>item_id = ''x'', item_file = aTxt, preview = None\<rparr>,
                             \<lparr>item_id = ''xxx'', item_file = bPng, preview = Some 1\<rparr>],
                   toasts := [ToastSuccess ''Added 2 file(s)'', ToastSuccess ''Added 1 file(s)''],
                   randomCalls := 3, nextUrl := 2, revoked := [0]\<rparr>"
  by (simp add: sampleTrace_def addFiles_def newItem_def random36_def createObjectURL_def
      startsWith_def substring_def setFiles_def toast_success_def toString_small digit_def
      sampleRnd_def initialWorld_def aTxt_def bPng_def removeFile_def revokePreview_def
      revokeObjectURL_def)

lemma cyclicTrace_eq:
  "fold (step cyclicRnd) sampleTrace initialWorld =
     initialWorld\<lparr>files := [\<lparr>item_id = ''x'', item_file = aTxt, preview = None\<rparr>,
                             \<lparr>item_id = ''xxx'', item_file = bPng, preview = Some 1\<rparr>],
                   toasts := [ToastSuccess ''Added 2 file(s)'', ToastSuccess ''Added 1 file(s)''],
                   randomCalls := 3, nextUrl := 2, revoked := [0]\<rparr>"
  by (simp add: sampleTrace_def addFiles_def newItem_def random36_def createObjectURL_def
      startsWith_def substring_def setFiles_def toast_success_def toString_small digit_def
      cyclicRnd_def sampleRnd_def initialWorld_def aTxt_def bPng_def removeFile_def
      revokePreview_def revokeObjectURL_def)

lemma inj_on_cyclicRnd: "inj_on (drawnId cyclicRnd) {..<3}"
proof (rule inj_onI)
  fix a b :: nat assume a: "a \<in> {..<3}" and b: "b \<in> {..<3}"
    and e: "drawnId cyclicRnd a = drawnId cyclicRnd b"
  from a b have m: "a mod 4 = a" "b mod 4 = b" by simp_all
  from e have "drawnId sampleRnd a = drawnId sampleRnd b"
    by (simp add: drawnId_def cyclicRnd_def m)
  with inj_sampleRnd show "a = b" by (simp add: inj_def)
qed

lemma cyclicRnd_repeats: "drawnId cyclicRnd 0 = drawnId cyclicRnd 4"
  by (simp add: drawnId_def cyclicRnd_def)

lemma collidingTrace_eq:
  "fold (step collidingRnd) collidingTrace initialWorld =
     initialWorld\<lparr>files := [], toasts := [ToastSuccess ''Added 2 file(s)''],
                   randomCalls := 2, nextUrl := 1\<rparr>"
  using removeFile_collided by (simp add: collidingTrace_def stagedCollided_def)

lemma zipFileName_sample: "zipFileName sampleDate = ''file-fling-2026-11-02T08-26-05.zip''"
  by (simp add: zipFileName_four fourDigitYear_def sampleDate_def dec2 dec4 digit_def)

lemma zipFileName_later: "zipFileName laterDate = ''file-fling-2026-11-02T08-26-05.zip''"
  by (simp add: zipFileName_four fourDigitYear_def laterDate_def sampleDate_def dec2 dec4 digit_def)

lemma zipFileName_next: "zipFileName nextSecond = ''file-fling-2026-11-02T08-26-06.zip''"
  by (simp add: zipFileName_four fourDigitYear_def nextSecond_def sampleDate_def dec2 dec4 digit_def)

lemma zipFileName_far: "zipFileName farDate = ''file-fling-+010000-11-02T08-26.zip''"
  by (simp add: zipFileName_def toISOString_def slice_def replaceAll_def farDate_def
      sampleDate_def dec2 dec3 dec6 digit_def)

lemma far_no_match: "\<not> matches zipNamePattern (zipFileName farDate)"
  by (simp add: zipFileName_far zipNamePattern_unfold isDigit_def)

lemma blobOf_twoSameName:
  "blobOf twoSameName =
     \<lparr>entries = [(''a.txt'', [98, 121, 101])], compression = ''DEFLATE'', level = 6\<rparr>"
  by (simp add: blobOf_def containerOf_def addEntry_def zip_file_def twoSameName_def)

lemma blobOf_stagedTwo:
  "blobOf (files stagedTwo) =
     \<lparr>entries = [(''a.txt'', [104, 101, 108, 108, 111, 32, 119, 111, 114, 108, 100, 33]),
                 (''b.png'', [137, 80, 78, 71, 13, 10, 26, 10])],
      compression = ''DEFLATE'', level = 6\<rparr>"
  by (simp add: blobOf_def containerOf_def addEntry_def zip_file_def stagedTwo_eq aTxt_def bPng_def)

lemma files_stagedThree:
  "files stagedThree =
     [\<lparr>item_id = ''k3x9p'', item_file = aTxt, preview = None\<rparr>,
      \<lparr>item_id = ''q7m2c'', item_file = bPng, preview = Some 0\<rparr>,
      \<lparr>item_id = ''w1d8r'',
       item_file = \<lparr>name = ''c.txt'', type = ''text/plain'', bytes = [99]\<rparr>,
       preview = None\<rparr>]"
  by (simp add: stagedThree_def threeFiles_def)

lemma length_stagedThree: "length (files stagedThree) = 3"
  by (simp add: files_stagedThree)

lemma progressLog_stagedThree: "progressLog stagedThree = []"
  by (simp add: stagedThree_def initialWorld_def)

lemma checkpoints_three:
  "map (checkpoint 3) [0..<3] =
     [2345624805922133 / 140737488355328, 2345624805922133 / 70368744177664, 50]"
proof -
  have u: "[0..<3] = [0, 1, 2 :: nat]" by (simp add: upt_conv_Cons del: upt_Suc)
  show ?thesis
    unfolding u by (simp only: list.map checkpoint_3_0 checkpoint_3_1 checkpoint_3_2)
qed

lemma checkpoints_three_first:
  "map (checkpoint 3) [0..<1] = [2345624805922133 / 140737488355328]"
proof -
  have u: "[0..<1] = [0 :: nat]" by simp
  show ?thesis unfolding u by (simp only: list.map checkpoint_3_0)
qed

lemma checkpoint_one: "checkpoint 1 0 = 50"
  using checkpoint_last[of 1] by simp

lemma adds_saveFails: "addsSucceed (saveFailsEnv now) fs"
  by (simp add: addsSucceed_def saveFailsEnv_def)

section \<open>The claims\<close>

subsection \<open>Building the archive\<close>

text \<open>
  C1 (as amended). For a non-empty staged list whose file names are pairwise distinct, a
  build in which no step throws downloads exactly one archive: it holds one entry per staged
  file, in order, and the path of an entry is the file's own name with nothing put before
  it, so the entries lie at the top level when the names hold no \<open>/\<close>; extracting an entry
  gives back that file's bytes, and the archive was written with DEFLATE at level 6. The
  file name is \<open>zipFileName\<close> of the clock, which matches
  \<open>file-fling-\d{4}-\d{2}-\d{2}T\d{2}-\d{2}-\d{2}\.zip\<close> exactly when the clock's UTC
  year has four digits.
\<close>

theorem createZip_archive:
  assumes "files w \<noteq> []" and "distinct (map fileName (files w))"
    and "buildSucceeds e (files w)"
  shows "\<exists>blob fname.
           downloads (snd (createZip e w)) = downloads w @ [(blob, fname)] \<and>
           entries blob = map (\<lambda>x. (name (item_file x), bytes (item_file x))) (files w) \<and>
           length (entries blob) = length (files w) \<and>
           map fst (entries blob) = map (\<lambda>x. name (item_file x)) (files w) \<and>
           ((\<forall>x \<in> set (files w). topLevel (name (item_file x))) \<longrightarrow>
              (\<forall>p \<in> set (map fst (entries blob)). topLevel p)) \<and>
           (\<forall>x \<in> set (files w). extractEntry blob (name (item_file x)) = Some (bytes (item_file x))) \<and>
           compression blob = ''DEFLATE'' \<and> level blob = 6 \<and>
           fname = zipFileName (clock e) \<and>
           (matches zipNamePattern fname \<longleftrightarrow> fourDigitYear (clock e))"
proof -
  let ?blob = "blobOf (files w)"
  have dl: "downloads (snd (createZip e w)) = downloads w @ [(?blob, zipFileName (clock e))]"
    using assms(1,3) by (simp add: createZip_success)
  have en: "entries ?blob = map (\<lambda>x. (name (item_file x), bytes (item_file x))) (files w)"
    using assms(2) by (simp add: blobOf_def containerOf_distinct fileName_def)
  have le: "length (entries ?blob) = length (files w)" by (simp add: en)
  have nm: "map fst (entries ?blob) = map (\<lambda>x. name (item_file x)) (files w)"
    by (simp add: en comp_def)
  have tl: "(\<forall>x \<in> set (files w). topLevel (name (item_file x))) \<longrightarrow>
      (\<forall>p \<in> set (map fst (entries ?blob)). topLevel p)"
    unfolding nm by simp
  have ex: "\<forall>x \<in> set (files w). extractEntry ?blob (name (item_file x)) = Some (bytes (item_file x))"
  proof
    fix x assume x: "x \<in> set (files w)"
    from last_filter_distinct[OF assms(2) x] x
    show "extractEntry ?blob (name (item_file x)) = Some (bytes (item_file x))"
      using extractEntry_blobOf[of "files w" "fileName x"] by (simp add: fileName_def)
  qed
  have op: "compression ?blob = ''DEFLATE'' \<and> level ?blob = 6" by (simp add: blobOf_def)
  have pt: "matches zipNamePattern (zipFileName (clock e)) \<longleftrightarrow> fourDigitYear (clock e)"
    by (rule zipFileName_matches_iff)
  from dl en le nm tl ex op pt show ?thesis by blast
qed

theorem createZip_archive_witness:
  "files stagedTwo \<noteq> [] \<and> distinct (map fileName (files stagedTwo)) \<and>
   buildSucceeds (calmEnv sampleDate) (files stagedTwo) \<and>
   fourDigitYear (clock (calmEnv sampleDate)) \<and>
   topLevel ''a.txt'' \<and> topLevel ''b.png'' \<and>
   (\<exists>blob fname.
      downloads (snd (createZip (calmEnv sampleDate) stagedTwo)) = [(blob, fname)] \<and>
      entries blob = [(''a.txt'', [104, 101, 108, 108, 111, 32, 119, 111, 114, 108, 100, 33]),
                      (''b.png'', [137, 80, 78, 71, 13, 10, 26, 10])] \<and>
      map fst (entries blob) = [''a.txt'', ''b.png''] \<and>
      extractEntry blob ''a.txt'' = Some (bytes aTxt) \<and>
      extractEntry blob ''b.png'' = Some (bytes bPng) \<and>
      compression blob = ''DEFLATE'' \<and> level blob = 6 \<and>
      fname = ''file-fling-2026-11-02T08-26-05.zip'' \<and>
      matches zipNamePattern fname) \<and>
   buildSucceeds (calmEnv farDate) (files stagedTwo) \<and>
   \<not> fourDigitYear (clock (calmEnv farDate)) \<and>
   (\<exists>blob fname.
      downloads (snd (createZip (calmEnv farDate) stagedTwo)) = [(blob, fname)] \<and>
      map fst (entries blob) = [''a.txt'', ''b.png''] \<and>
      fname = ''file-fling-+010000-11-02T08-26.zip'' \<and>
      \<not> matches zipNamePattern fname)"
proof -
  have ne: "files stagedTwo \<noteq> []" by (simp add: stagedTwo_eq)
  have di: "distinct (map fileName (files stagedTwo))"
    by (simp add: stagedTwo_eq fileName_def aTxt_def bPng_def)
  have fy: "fourDigitYear (clock (calmEnv sampleDate))"
    by (simp add: fourDigitYear_def calmEnv_def sampleDate_def)
  have tl: "topLevel ''a.txt''" "topLevel ''b.png''" by (simp_all add: topLevel_def)
  from createZip_archive[OF ne di buildSucceeds_calm]
  obtain blob fname where
    r: "downloads (snd (createZip (calmEnv sampleDate) stagedTwo)) = downloads stagedTwo @ [(blob, fname)]"
       "entries blob = map (\<lambda>x. (name (item_file x), bytes (item_file x))) (files stagedTwo)"
       "\<forall>x \<in> set (files stagedTwo). extractEntry blob (name (item_file x)) = Some (bytes (item_file x))"
       "compression blob = ''DEFLATE''" "level blob = 6"
       "fname = zipFileName (clock (calmEnv sampleDate))"
       "matches zipNamePattern fname \<longleftrightarrow> fourDigitYear (clock (calmEnv sampleDate))"
    by blast
  from r(1) have 1: "downloads (snd (createZip (calmEnv sampleDate) stagedTwo)) = [(blob, fname)]"
    by (simp add: stagedTwo_eq initialWorld_def)
  from r(2) have 2: "entries blob =
      [(''a.txt'', [104, 101, 108, 108, 111, 32, 119, 111, 114, 108, 100, 33]),
       (''b.png'', [137, 80, 78, 71, 13, 10, 26, 10])]"
    by (simp add: stagedTwo_eq aTxt_def bPng_def)
  from 2 have nm: "map fst (entries blob) = [''a.txt'', ''b.png'']" by simp
  from r(3) have 3: "extractEntry blob ''a.txt'' = Some (bytes aTxt)"
    "extractEntry blob ''b.png'' = Some (bytes bPng)"
    by (simp_all add: stagedTwo_eq aTxt_def bPng_def)
  from r(6) have 4: "fname = ''file-fling-2026-11-02T08-26-05.zip''"
    by (simp add: calmEnv_def zipFileName_sample)
  from r(7) fy have 5: "matches zipNamePattern fname" by simp
  have E: "\<exists>blob fname.
      downloads (snd (createZip (calmEnv sampleDate) stagedTwo)) = [(blob, fname)] \<and>
      entries blob = [(''a.txt'', [104, 101, 108, 108, 111, 32, 119, 111, 114, 108, 100, 33]),
                      (''b.png'', [137, 80, 78, 71, 13, 10, 26, 10])] \<and>
      map fst (entries blob) = [''a.txt'', ''b.png''] \<and>
      extractEntry blob ''a.txt'' = Some (bytes aTxt) \<and>
      extractEntry blob ''b.png'' = Some (bytes bPng) \<and>
      compression blob = ''DEFLATE'' \<and> level blob = 6 \<and>
      fname = ''file-fling-2026-11-02T08-26-05.zip'' \<and>
      matches zipNamePattern fname"
    using 1 2 nm 3 4 5 r(4,5) by (intro exI[of _ blob] exI[of _ fname] conjI)
  have nf: "\<not> fourDigitYear (clock (calmEnv farDate))"
    by (simp add: fourDigitYear_def calmEnv_def farDate_def)
  from createZip_archive[OF ne di buildSucceeds_calm, of farDate]
  obtain blob' fname' where
    q: "downloads (snd (createZip (calmEnv farDate) stagedTwo)) = downloads stagedTwo @ [(blob', fname')]"
       "map fst (entries blob') = map (\<lambda>x. name (item_file x)) (files stagedTwo)"
       "fname' = zipFileName (clock (calmEnv farDate))"
       "matches zipNamePattern fname' \<longleftrightarrow> fourDigitYear (clock (calmEnv farDate))"
    by blast
  from q(1) have f1: "downloads (snd (createZip (calmEnv farDate) stagedTwo)) = [(blob', fname')]"
    by (simp add: stagedTwo_eq initialWorld_def)
  from q(2) have f2: "map fst (entries blob') = [''a.txt'', ''b.png'']"
    by (simp add: stagedTwo_eq aTxt_def bPng_def)
  from q(3) have f3: "fname' = ''file-fling-+010000-11-02T08-26.zip''"
    by (simp add: calmEnv_def zipFileName_far)
  from q(4) nf have f4: "\<not> matches zipNamePattern fname'" by simp
  have F: "\<exists>blob fname.
      downloads (snd (createZip (calmEnv farDate) stagedTwo)) = [(blob, fname)] \<and>
      map fst (entries blob) = [''a.txt'', ''b.png''] \<and>
      fname = ''file-fling-+010000-11-02T08-26.zip'' \<and>
      \<not> matches zipNamePattern fname"
    using f1 f2 f3 f4 by (intro exI[of _ blob'] exI[of _ fname'] conjI)
  from ne di fy tl buildSucceeds_calm[of sampleDate "files stagedTwo"] E
    buildSucceeds_calm[of farDate "files stagedTwo"] nf F
  show ?thesis by (intro conjI)
qed

text \<open>
  C1 as stated fails in three ways. Two staged files with the same name leave one entry,
  holding the bytes of the second file only. A build whose serialization fails downloads
  nothing. In the year 10000 \<open>toISOString\<close> switches to the expanded year format and the
  name no longer matches the pattern.
\<close>

theorem createZip_archive_counterexample:
  "files stagedSameName \<noteq> [] \<and>
   buildSucceeds (calmEnv sampleDate) (files stagedSameName) \<and>
   length (files stagedSameName) = 2 \<and>
   downloads (snd (createZip (calmEnv sampleDate) stagedSameName)) =
     [(\<lparr>entries = [(''a.txt'', [98, 121, 101])], compression = ''DEFLATE'', level = 6\<rparr>,
       ''file-fling-2026-11-02T08-26-05.zip'')] \<and>
   bytes (item_file (hd (files stagedSameName))) = [104, 105] \<and>
   downloads (snd (createZip (unreadableEnv sampleDate) stagedOne)) = [] \<and>
   buildSucceeds (calmEnv farDate) (files stagedOne) \<and>
   map snd (downloads (snd (createZip (calmEnv farDate) stagedOne))) =
     [''file-fling-+010000-11-02T08-26.zip''] \<and>
   \<not> matches zipNamePattern ''file-fling-+010000-11-02T08-26.zip''"
proof -
  have ne: "files stagedSameName \<noteq> []" by (simp add: stagedSameName_def twoSameName_def)
  have a: "downloads (snd (createZip (calmEnv sampleDate) stagedSameName)) =
     [(\<lparr>entries = [(''a.txt'', [98, 121, 101])], compression = ''DEFLATE'', level = 6\<rparr>,
       ''file-fling-2026-11-02T08-26-05.zip'')]"
    using createZip_success[OF ne buildSucceeds_calm, of sampleDate] blobOf_twoSameName
    by (simp add: zipFileName_sample calmEnv_def) (simp add: stagedSameName_def initialWorld_def)
  have ne1: "files stagedOne \<noteq> []" by (simp add: stagedOne_def oneFile_def)
  have nb: "\<not> buildSucceeds (unreadableEnv sampleDate) (files stagedOne)"
    by (simp add: buildSucceeds_def unreadableEnv_def)
  have b: "downloads (snd (createZip (unreadableEnv sampleDate) stagedOne)) = []"
    using createZip_failure_downloads[OF ne1 nb] by (simp add: stagedOne_def initialWorld_def)
  have c: "map snd (downloads (snd (createZip (calmEnv farDate) stagedOne))) =
     [''file-fling-+010000-11-02T08-26.zip'']"
    using createZip_success[OF ne1 buildSucceeds_calm, of farDate]
    by (simp add: zipFileName_far calmEnv_def) (simp add: stagedOne_def initialWorld_def)
  have d: "\<not> matches zipNamePattern ''file-fling-+010000-11-02T08-26.zip''"
    by (simp add: zipNamePattern_unfold isDigit_def)
  have l: "length (files stagedSameName) = 2"
    "bytes (item_file (hd (files stagedSameName))) = [104, 105]"
    by (simp_all add: stagedSameName_def twoSameName_def)
  from ne a b c d l buildSucceeds_calm show ?thesis by simp
qed

text \<open>
  C2 (as amended). The name of the downloaded file is \<open>file-fling-\<close>, the UTC year, month
  and day, \<open>T\<close>, the hour, minute and second, all separated by hyphens, and \<open>.zip\<close>. Two
  successful builds (clock readings with four-digit years) get the same name exactly when
  their clocks read the same second; builds in different seconds never collide.
\<close>

theorem createZip_filename_timestamp:
  assumes "files w1 \<noteq> []" and "buildSucceeds e1 (files w1)"
    and "files w2 \<noteq> []" and "buildSucceeds e2 (files w2)"
    and "fourDigitYear (clock e1)" and "validDate (clock e1)"
    and "fourDigitYear (clock e2)" and "validDate (clock e2)"
  shows "map snd (downloads (snd (createZip e1 w1))) =
           map snd (downloads w1) @ [zipFileName (clock e1)] \<and>
         map snd (downloads (snd (createZip e2 w2))) =
           map snd (downloads w2) @ [zipFileName (clock e2)] \<and>
         zipFileName (clock e1) =
           ''file-fling-'' @ dec 4 (nat (year (clock e1))) @ ''-'' @ dec 2 (month (clock e1)) @
           ''-'' @ dec 2 (day (clock e1)) @ ''T'' @ dec 2 (hour (clock e1)) @ ''-'' @
           dec 2 (minute (clock e1)) @ ''-'' @ dec 2 (second (clock e1)) @ ''.zip'' \<and>
         (zipFileName (clock e1) = zipFileName (clock e2) \<longleftrightarrow> sameSecond (clock e1) (clock e2))"
proof -
  have a: "map snd (downloads (snd (createZip e1 w1))) = map snd (downloads w1) @ [zipFileName (clock e1)]"
    using assms(1,2) by (simp add: createZip_success)
  have b: "map snd (downloads (snd (createZip e2 w2))) = map snd (downloads w2) @ [zipFileName (clock e2)]"
    using assms(3,4) by (simp add: createZip_success)
  note c = zipFileName_four[OF assms(5)]
  note d = zipFileName_eq_iff[OF assms(5) assms(7) assms(6) assms(8)]
  from a b c d show ?thesis by blast
qed

theorem createZip_filename_timestamp_witness:
  "files stagedOne \<noteq> [] \<and> buildSucceeds (calmEnv sampleDate) (files stagedOne) \<and>
   buildSucceeds (calmEnv nextSecond) (files stagedOne) \<and>
   fourDigitYear (clock (calmEnv sampleDate)) \<and> validDate (clock (calmEnv sampleDate)) \<and>
   fourDigitYear (clock (calmEnv nextSecond)) \<and> validDate (clock (calmEnv nextSecond)) \<and>
   map snd (downloads (snd (createZip (calmEnv sampleDate) stagedOne))) =
     [''file-fling-2026-11-02T08-26-05.zip''] \<and>
   map snd (downloads (snd (createZip (calmEnv nextSecond) stagedOne))) =
     [''file-fling-2026-11-02T08-26-06.zip''] \<and>
   \<not> sameSecond (clock (calmEnv sampleDate)) (clock (calmEnv nextSecond)) \<and>
   zipFileName (clock (calmEnv sampleDate)) \<noteq> zipFileName (clock (calmEnv nextSecond))"
proof -
  have ne: "files stagedOne \<noteq> []" by (simp add: stagedOne_def oneFile_def)
  have v: "fourDigitYear (clock (calmEnv sampleDate))" "validDate (clock (calmEnv sampleDate))"
    "fourDigitYear (clock (calmEnv nextSecond))" "validDate (clock (calmEnv nextSecond))"
    by (simp_all add: fourDigitYear_def validDate_def calmEnv_def sampleDate_def nextSecond_def)
  have ns: "\<not> sameSecond (clock (calmEnv sampleDate)) (clock (calmEnv nextSecond))"
    by (simp add: sameSecond_def calmEnv_def sampleDate_def nextSecond_def)
  have cl: "clock (calmEnv sampleDate) = sampleDate" "clock (calmEnv nextSecond) = nextSecond"
    by (simp_all add: calmEnv_def)
  have dl: "downloads stagedOne = []" by (simp add: stagedOne_def initialWorld_def)
  from createZip_filename_timestamp[OF ne buildSucceeds_calm ne buildSucceeds_calm v(1) v(2) v(3) v(4)]
    ne v ns buildSucceeds_calm
  show ?thesis
    by (simp add: cl dl zipFileName_sample zipFileName_next)
qed

text \<open>
  C2 as stated fails: two builds run one after the other within the same second (the
  clock readings differ in their milliseconds only) download under the same name.
\<close>

theorem createZip_filename_counterexample:
  "sampleDate \<noteq> laterDate \<and>
   files stagedOne \<noteq> [] \<and>
   map snd (downloads (snd (createZip (calmEnv laterDate)
                             (snd (createZip (calmEnv sampleDate) stagedOne))))) =
     [''file-fling-2026-11-02T08-26-05.zip'', ''file-fling-2026-11-02T08-26-05.zip'']"
proof -
  have ne: "files stagedOne \<noteq> []" by (simp add: stagedOne_def oneFile_def)
  have d: "sampleDate \<noteq> laterDate"
  proof
    assume "sampleDate = laterDate"
    then have "millis sampleDate = millis laterDate" by simp
    then show False by (simp add: sampleDate_def laterDate_def)
  qed
  let ?w1 = "snd (createZip (calmEnv sampleDate) stagedOne)"
  have f1: "files ?w1 = files stagedOne" using createZip_frame[of "calmEnv sampleDate" stagedOne] by simp
  have d1: "map snd (downloads ?w1) = [''file-fling-2026-11-02T08-26-05.zip'']"
    using createZip_success[OF ne buildSucceeds_calm, of sampleDate]
    by (simp add: zipFileName_sample calmEnv_def) (simp add: stagedOne_def initialWorld_def)
  from ne f1 have ne2: "files ?w1 \<noteq> []" by simp
  have "map snd (downloads (snd (createZip (calmEnv laterDate) ?w1))) =
      map snd (downloads ?w1) @ [zipFileName laterDate]"
    using createZip_success[OF ne2 buildSucceeds_calm, of laterDate] by (simp add: calmEnv_def)
  with d1 have "map snd (downloads (snd (createZip (calmEnv laterDate) ?w1))) =
     [''file-fling-2026-11-02T08-26-05.zip'', ''file-fling-2026-11-02T08-26-05.zip'']"
    by (simp add: zipFileName_later)
  with d ne show ?thesis by simp
qed

text \<open>
  C3. \<open>createZip\<close> always returns normally to its caller, and never changes the staging
  list. Whenever it gets past the empty-list check (or starts from the idle state, the only
  state in which the button that calls it is enabled) it ends with \<open>isCreatingZip = false\<close>
  and \<open>zipProgress = 0\<close>, on success and on failure. If some step of the build throws (a
  \<open>zip.file\<close> call, \<open>generateAsync\<close> or \<open>saveAs\<close>), the exception is logged to the
  console, the toast \<open>Failed to create ZIP file\<close> is shown, and nothing is downloaded.
\<close>

theorem createZip_failure_contained:
  assumes "files w \<noteq> [] \<or> (\<not> isCreatingZip w \<and> zipProgress w = 0)"
  shows "fst (createZip e w) = Inr () \<and>
         files (snd (createZip e w)) = files w \<and>
         \<not> isCreatingZip (snd (createZip e w)) \<and>
         zipProgress (snd (createZip e w)) = 0 \<and>
         (files w \<noteq> [] \<and> \<not> buildSucceeds e (files w) \<longrightarrow>
            (\<exists>x. toasts (snd (createZip e w)) = toasts w @ [ToastError ''Failed to create ZIP file''] \<and>
                 consoleErrors (snd (createZip e w)) =
                   consoleErrors w @ [(''Error creating ZIP:'', x)]) \<and>
            downloads (snd (createZip e w)) = downloads w)"
proof -
  have r: "fst (createZip e w) = Inr ()"
    by (simp add: createZip_def Let_def split: prod.splits)
  have f: "files (snd (createZip e w)) = files w"
    using createZip_frame[of e w] by simp
  have s: "\<not> isCreatingZip (snd (createZip e w)) \<and> zipProgress (snd (createZip e w)) = 0"
    using assms
    by (auto simp: createZip_def Let_def setZipProgress_def setIsCreatingZip_def toast_error_def
        split: prod.splits)
  have t: "(\<exists>x. toasts (snd (createZip e w)) = toasts w @ [ToastError ''Failed to create ZIP file''] \<and>
                 consoleErrors (snd (createZip e w)) =
                   consoleErrors w @ [(''Error creating ZIP:'', x)]) \<and>
            downloads (snd (createZip e w)) = downloads w"
    if ne: "files w \<noteq> []" and nb: "\<not> buildSucceeds e (files w)"
  proof -
    let ?w1 = "setZipProgress 0 (setIsCreatingZip True w)"
    from tryBody_fails[OF nb, of ?w1] obtain x where "fst (tryBody e (files w) ?w1) = Inl x" ..
    then obtain w2 where tb: "tryBody e (files w) ?w1 = (Inl x, w2)"
      by (cases "tryBody e (files w) ?w1") simp
    from tryBody_Inl_frame[OF tb] tryBody_frame[OF tb]
    have "downloads w2 = downloads w" "toasts w2 = toasts w" "consoleErrors w2 = consoleErrors w"
      by (simp_all add: setZipProgress_def setIsCreatingZip_def)
    with ne tb show ?thesis
      by (simp add: createZip_def Let_def setZipProgress_def setIsCreatingZip_def
          toast_error_def console_error_def)
  qed
  from r f s t show ?thesis by blast
qed

theorem createZip_failure_contained_witness:
  "files stagedOne \<noteq> [] \<and>
   \<not> buildSucceeds (unreadableEnv sampleDate) (files stagedOne) \<and>
   fst (createZip (unreadableEnv sampleDate) stagedOne) = Inr () \<and>
   files (snd (createZip (unreadableEnv sampleDate) stagedOne)) = oneFile \<and>
   \<not> isCreatingZip (snd (createZip (unreadableEnv sampleDate) stagedOne)) \<and>
   zipProgress (snd (createZip (unreadableEnv sampleDate) stagedOne)) = 0 \<and>
   toasts (snd (createZip (unreadableEnv sampleDate) stagedOne)) =
     [ToastError ''Failed to create ZIP file''] \<and>
   consoleErrors (snd (createZip (unreadableEnv sampleDate) stagedOne)) =
     [(''Error creating ZIP:'', ''NotReadableError'')] \<and>
   downloads (snd (createZip (unreadableEnv sampleDate) stagedOne)) = []"
proof -
  have ne: "files stagedOne \<noteq> []" by (simp add: stagedOne_def oneFile_def)
  have nb: "\<not> buildSucceeds (unreadableEnv sampleDate) (files stagedOne)"
    by (simp add: buildSucceeds_def unreadableEnv_def)
  have g: "generateThrows (unreadableEnv sampleDate) (containerOf (files stagedOne)) =
      Some ''NotReadableError''"
    by (simp add: unreadableEnv_def)
  note ev = createZip_generate_fails[OF ne adds_unreadable g]
  from createZip_failure_contained[of stagedOne "unreadableEnv sampleDate"] ne nb
  show ?thesis
    by (simp add: ev) (simp add: stagedOne_def initialWorld_def)
qed

text \<open>
  C4. Called with an empty staged list, \<open>createZip\<close> reports the error toast and returns at
  once: nothing else in the world changes, so no archive is built, nothing is downloaded,
  and \<open>isCreatingZip\<close> and \<open>zipProgress\<close> are what they were.
\<close>

theorem createZip_empty:
  "files w = [] \<Longrightarrow>
   createZip e w = (Inr (), w\<lparr>toasts := toasts w @ [ToastError ''Please add some files first'']\<rparr>) \<and>
   downloads (snd (createZip e w)) = downloads w \<and>
   isCreatingZip (snd (createZip e w)) = isCreatingZip w \<and>
   zipProgress (snd (createZip e w)) = zipProgress w \<and>
   progressLog (snd (createZip e w)) = progressLog w"
  by (simp add: createZip_def toast_error_def)

theorem createZip_empty_witness:
  "files initialWorld = [] \<and>
   createZip (calmEnv sampleDate) initialWorld =
     (Inr (), initialWorld\<lparr>toasts := [ToastError ''Please add some files first'']\<rparr>) \<and>
   downloads (snd (createZip (calmEnv sampleDate) initialWorld)) = [] \<and>
   isCreatingZip (snd (createZip (calmEnv sampleDate) initialWorld)) = False \<and>
   zipProgress (snd (createZip (calmEnv sampleDate) initialWorld)) = 0 \<and>
   progressLog (snd (createZip (calmEnv sampleDate) initialWorld)) = []"
  using createZip_empty[of initialWorld "calmEnv sampleDate"]
  by (simp add: initialWorld_def)

subsection \<open>The staging list\<close>

text \<open>
  C5 (as amended). Removing an id that no staged entry has changes nothing. When the ids of
  the staged entries are pairwise distinct, removing the id of a staged entry \<open>x\<close> removes
  exactly \<open>x\<close>: the list is one shorter, no entry with that id is left, the other entries
  stay in place, and the preview URL of \<open>x\<close>, if it has one, is revoked (and nothing else
  is).
\<close>

theorem removeFile_by_id:
  "(i \<notin> item_id ` set (files w) \<longrightarrow> removeFile i w = w) \<and>
   (distinct (map item_id (files w)) \<longrightarrow>
      (\<forall>x \<in> set (files w).
         removeFile (item_id x) w =
           w\<lparr>files := remove1 x (files w),
             revoked := revoked w @ (case preview x of Some u \<Rightarrow> [u] | None \<Rightarrow> [])\<rparr> \<and>
         Suc (length (files (removeFile (item_id x) w))) = length (files w) \<and>
         item_id x \<notin> item_id ` set (files (removeFile (item_id x) w)) \<and>
         set (files (removeFile (item_id x) w)) = set (files w) - {x}))"
proof -
  have a: "i \<notin> item_id ` set (files w) \<longrightarrow> removeFile i w = w"
    by (simp add: removeFile_absent)
  have b: "removeFile (item_id x) w =
           w\<lparr>files := remove1 x (files w),
             revoked := revoked w @ (case preview x of Some u \<Rightarrow> [u] | None \<Rightarrow> [])\<rparr> \<and>
         Suc (length (files (removeFile (item_id x) w))) = length (files w) \<and>
         item_id x \<notin> item_id ` set (files (removeFile (item_id x) w)) \<and>
         set (files (removeFile (item_id x) w)) = set (files w) - {x}"
    if d: "distinct (map item_id (files w))" and x: "x \<in> set (files w)" for x
  proof -
    note eq = removeFile_present[OF d x]
    from d have df: "distinct (files w)" by (rule distinct_items)
    from x have l: "Suc (length (remove1 x (files w))) = length (files w)"
      by (simp add: length_remove1) (cases "files w", simp_all)
    from df have s: "set (remove1 x (files w)) = set (files w) - {x}" by simp
    from d x have n: "item_id x \<notin> item_id ` (set (files w) - {x})"
      by (auto simp: distinct_map inj_on_def)
    from l s n show ?thesis by (simp add: eq)
  qed
  from a b show ?thesis by blast
qed

theorem removeFile_by_id_witness:
  "''zz'' \<notin> item_id ` set (files stagedTwo) \<and> removeFile ''zz'' stagedTwo = stagedTwo \<and>
   distinct (map item_id (files stagedTwo)) \<and>
   \<lparr>item_id = ''xx'', item_file = bPng, preview = Some 0\<rparr> \<in> set (files stagedTwo) \<and>
   length (files stagedTwo) = 2 \<and>
   files (removeFile ''xx'' stagedTwo) = [\<lparr>item_id = ''x'', item_file = aTxt, preview = None\<rparr>] \<and>
   revoked (removeFile ''xx'' stagedTwo) = [0]"
proof -
  let ?x = "\<lparr>item_id = ''xx'', item_file = bPng, preview = Some 0\<rparr>"
  have n: "''zz'' \<notin> item_id ` set (files stagedTwo)" by (simp add: stagedTwo_eq)
  have d: "distinct (map item_id (files stagedTwo))" by (simp add: stagedTwo_eq)
  have x: "?x \<in> set (files stagedTwo)" by (simp add: stagedTwo_eq)
  have l: "length (files stagedTwo) = 2" by (simp add: stagedTwo_eq)
  from removeFile_by_id[of "''zz''" stagedTwo] n have 1: "removeFile ''zz'' stagedTwo = stagedTwo"
    by blast
  from removeFile_by_id[of "''zz''" stagedTwo] d x
  have "removeFile (item_id ?x) stagedTwo =
           stagedTwo\<lparr>files := remove1 ?x (files stagedTwo),
             revoked := revoked stagedTwo @ (case preview ?x of Some u \<Rightarrow> [u] | None \<Rightarrow> [])\<rparr>"
    by blast
  then have 2: "files (removeFile ''xx'' stagedTwo) = [\<lparr>item_id = ''x'', item_file = aTxt, preview = None\<rparr>]"
    "revoked (removeFile ''xx'' stagedTwo) = [0]"
    by (simp_all add: stagedTwo_eq initialWorld_def)
  from n d x l 1 2 show ?thesis by blast
qed

text \<open>
  C5 as stated fails when two staged entries share an id, which two draws of the random
  generator can produce: \<open>filter\<close> removes both entries, so the list gets two shorter, and
  \<open>find\<close> yields only the first of them, so the preview URL of the second is not revoked.
\<close>

theorem removeFile_shared_id_counterexample:
  "''8k2m1'' \<in> item_id ` set (files stagedCollided) \<and>
   length (files stagedCollided) = 2 \<and>
   length (files (removeFile ''8k2m1'' stagedCollided)) = 0 \<and>
   map preview (files stagedCollided) = [None, Some 0] \<and>
   revoked (removeFile ''8k2m1'' stagedCollided) = []"
  by (simp add: removeFile_collided) (simp add: stagedCollided_eq initialWorld_def)

text \<open>
  C6 (as amended). \<open>addFiles\<close> appends one entry per input file at the end of the list, in
  input order, and leaves the entries already there untouched, so the list grows by exactly
  the number of input files. Each entry gets as id the substring from index 7 of its own
  draw of the random generator; an object URL is created for it exactly when the MIME type
  starts with \<open>image/\<close>, and the URLs created are new ones. The success toast carries the
  number of files added. The new ids are distinct from one another and from the ids already
  staged provided the generator never repeats such a substring.
\<close>

theorem addFiles_appends:
  "\<exists>items.
     files (addFiles rnd newFiles w) = files w @ items \<and>
     length items = length newFiles \<and>
     map item_file items = newFiles \<and>
     map item_id items =
       map (\<lambda>k. substring 7 (rnd k)) [randomCalls w..<randomCalls w + length newFiles] \<and>
     (\<forall>x \<in> set items. (preview x \<noteq> None) = startsWith (type (item_file x)) ''image/'') \<and>
     previewsOf items = [nextUrl w..<nextUrl (addFiles rnd newFiles w)] \<and>
     toasts (addFiles rnd newFiles w) =
       toasts w @ [ToastSuccess (''Added '' @ toString (length newFiles) @ '' file(s)'')] \<and>
     length (files (addFiles rnd newFiles w)) = length (files w) + length newFiles \<and>
     (inj (drawnId rnd) \<and> distinct (map item_id (files w)) \<and>
      set (map item_id (files w)) \<subseteq> drawnId rnd ` {..<randomCalls w} \<longrightarrow>
        distinct (map item_id (files (addFiles rnd newFiles w))))"
proof -
  obtain items where
    s1: "map item_file items = newFiles" and
    s2: "map item_id items = map (drawnId rnd) [randomCalls w..<randomCalls w + length newFiles]" and
    s3: "\<forall>x \<in> set items. (preview x \<noteq> None) = startsWith (type (item_file x)) ''image/''" and
    s4: "previewsOf items = [nextUrl w..<nextUrl w + length (previewsOf items)]" and
    eq: "addFiles rnd newFiles w =
       w\<lparr>files := files w @ items,
         randomCalls := randomCalls w + length newFiles,
         nextUrl := nextUrl w + length (previewsOf items),
         toasts := toasts w @ [ToastSuccess (''Added '' @ toString (length newFiles) @ '' file(s)'')]\<rparr>"
    by (rule addFiles_spec[where newFiles=newFiles and rnd=rnd and w=w])
  from s1 have len: "length items = length newFiles" by (metis length_map)
  have dr: "drawnId rnd = (\<lambda>k. substring 7 (rnd k))" by (rule ext) (simp add: drawnId_def)
  have c1: "files (addFiles rnd newFiles w) = files w @ items" by (simp add: eq)
  have c4: "map item_id items =
       map (\<lambda>k. substring 7 (rnd k)) [randomCalls w..<randomCalls w + length newFiles]"
    using s2 by (simp only: dr)
  have c6: "previewsOf items = [nextUrl w..<nextUrl (addFiles rnd newFiles w)]"
    by (subst s4) (simp add: eq)
  have c7: "toasts (addFiles rnd newFiles w) =
       toasts w @ [ToastSuccess (''Added '' @ toString (length newFiles) @ '' file(s)'')]"
    by (simp add: eq)
  have c8: "length (files (addFiles rnd newFiles w)) = length (files w) + length newFiles"
    by (simp add: eq len)
  have c9: "inj (drawnId rnd) \<and> distinct (map item_id (files w)) \<and>
      set (map item_id (files w)) \<subseteq> drawnId rnd ` {..<randomCalls w} \<longrightarrow>
        distinct (map item_id (files (addFiles rnd newFiles w)))"
    using addFiles_ids_distinct[of rnd w newFiles]
      inj_on_subset[of "drawnId rnd" UNIV "{..<randomCalls w + length newFiles}"]
    by blast
  from c1 len s1 c4 s3 c6 c7 c8 c9 show ?thesis by blast
qed

theorem addFiles_appends_witness:
  "files (addFiles sampleRnd [aTxt, bPng] initialWorld) =
     files initialWorld @ [\<lparr>item_id = ''x'', item_file = aTxt, preview = None\<rparr>,
                           \<lparr>item_id = ''xx'', item_file = bPng, preview = Some 0\<rparr>] \<and>
   toasts (addFiles sampleRnd [aTxt, bPng] initialWorld) = [ToastSuccess ''Added 2 file(s)''] \<and>
   startsWith (type bPng) ''image/'' \<and> \<not> startsWith (type aTxt) ''image/'' \<and>
   inj (drawnId sampleRnd) \<and> distinct (map item_id (files initialWorld)) \<and>
   distinct (map item_id (files (addFiles sampleRnd [aTxt, bPng] initialWorld)))"
proof -
  from addFiles_appends[of sampleRnd "[aTxt, bPng]" initialWorld] inj_sampleRnd
  have d: "distinct (map item_id (files (addFiles sampleRnd [aTxt, bPng] initialWorld)))"
    by (auto simp: initialWorld_def)
  have e: "addFiles sampleRnd [aTxt, bPng] initialWorld = stagedTwo" by (simp add: stagedTwo_def)
  have s: "startsWith (type bPng) ''image/''" "\<not> startsWith (type aTxt) ''image/''"
    by (simp_all add: startsWith_def aTxt_def bPng_def)
  from d s inj_sampleRnd show ?thesis
    unfolding e by (simp add: stagedTwo_eq initialWorld_def)
qed

text \<open>
  C6 as stated fails on the freshness of ids: nothing compares a new id with the others, and
  two different random numbers that agree from the eighth character on give two entries the
  same id.
\<close>

theorem addFiles_id_collision_counterexample:
  "collidingRnd 0 \<noteq> collidingRnd 1 \<and>
   map item_id (files (addFiles collidingRnd [aTxt, bPng] initialWorld)) = [''8k2m1'', ''8k2m1''] \<and>
   \<not> distinct (map item_id (files (addFiles collidingRnd [aTxt, bPng] initialWorld)))"
proof -
  have e: "addFiles collidingRnd [aTxt, bPng] initialWorld = stagedCollided"
    by (simp add: stagedCollided_def)
  show ?thesis unfolding e by (simp add: stagedCollided_eq collidingRnd_def)
qed

text \<open>
  C7 (as amended). In every session in which the ids drawn never collide (the generator is
  injective on the draws the session has made), every object URL allocated so far is in
  exactly one of two conditions: it is the preview of an entry still
  staged and has not been revoked, or its entry is gone and it has been revoked exactly
  once. Removing a staged entry revokes that entry's preview and no other; clearing revokes
  every preview of every staged entry, each once, and leaves the list empty.
\<close>

theorem preview_released_exactly_once:
  assumes "w = fold (step rnd) acts initialWorld"
    and "inj_on (drawnId rnd) {..<randomCalls w}"
  shows "(\<forall>u < nextUrl w.
            count_list (revoked w) u = (if u \<in> set (previewsOf (files w)) then 0 else 1)) \<and>
         distinct (previewsOf (files w)) \<and>
         set (previewsOf (files w)) \<union> set (revoked w) = {..<nextUrl w} \<and>
         (\<forall>x \<in> set (files w).
            files (removeFile (item_id x) w) = remove1 x (files w) \<and>
            revoked (removeFile (item_id x) w) =
              revoked w @ (case preview x of Some u \<Rightarrow> [u] | None \<Rightarrow> [])) \<and>
         files (clearAllFiles w) = [] \<and>
         revoked (clearAllFiles w) = revoked w @ previewsOf (files w)"
proof -
  from assms have "inj_on (drawnId rnd) {..<randomCalls (fold (step rnd) acts initialWorld)}"
    by simp
  from handlesInv_fold[OF this handlesInv_initial] assms(1)
  have inv: "handlesInv rnd w" by simp
  then have d: "distinct (map item_id (files w))"
    and dp: "distinct (previewsOf (files w) @ revoked w)"
    and sp: "set (previewsOf (files w) @ revoked w) = {..<nextUrl w}"
    by (simp_all add: handlesInv_def)
  have a: "\<forall>u < nextUrl w.
            count_list (revoked w) u = (if u \<in> set (previewsOf (files w)) then 0 else 1)"
  proof (intro allI impI)
    fix u assume "u < nextUrl w"
    with sp have m: "u \<in> set (previewsOf (files w)) \<or> u \<in> set (revoked w)" by auto
    from dp have dr: "distinct (revoked w)"
      and dj: "set (previewsOf (files w)) \<inter> set (revoked w) = {}" by simp_all
    from m dj show "count_list (revoked w) u = (if u \<in> set (previewsOf (files w)) then 0 else 1)"
      by (auto simp: count_list_distinct[OF dr])
  qed
  from dp have b: "distinct (previewsOf (files w))" by simp
  from sp have c: "set (previewsOf (files w)) \<union> set (revoked w) = {..<nextUrl w}" by simp
  have r: "\<forall>x \<in> set (files w).
            files (removeFile (item_id x) w) = remove1 x (files w) \<and>
            revoked (removeFile (item_id x) w) =
              revoked w @ (case preview x of Some u \<Rightarrow> [u] | None \<Rightarrow> [])"
    by (simp add: removeFile_present[OF d])
  have e: "files (clearAllFiles w) = [] \<and>
         revoked (clearAllFiles w) = revoked w @ previewsOf (files w)"
    by (simp add: clearAllFiles_eq)
  from a b c r e show ?thesis by blast
qed

theorem preview_released_exactly_once_witness:
  "randomCalls (fold (step cyclicRnd) sampleTrace initialWorld) = 3 \<and>
   inj_on (drawnId cyclicRnd) {..<3} \<and>
   drawnId cyclicRnd 0 = drawnId cyclicRnd 4 \<and>
   nextUrl (fold (step cyclicRnd) sampleTrace initialWorld) = 2 \<and>
   previewsOf (files (fold (step cyclicRnd) sampleTrace initialWorld)) = [1] \<and>
   count_list (revoked (fold (step cyclicRnd) sampleTrace initialWorld)) 0 = 1 \<and>
   count_list (revoked (fold (step cyclicRnd) sampleTrace initialWorld)) 1 = 0 \<and>
   files (clearAllFiles (fold (step cyclicRnd) sampleTrace initialWorld)) = [] \<and>
   revoked (clearAllFiles (fold (step cyclicRnd) sampleTrace initialWorld)) = [0, 1]"
proof -
  let ?w = "fold (step cyclicRnd) sampleTrace initialWorld"
  have n: "nextUrl ?w = 2" and p: "previewsOf (files ?w) = [1]" and r: "revoked ?w = [0]"
    and k: "randomCalls ?w = 3"
    by (simp_all add: cyclicTrace_eq)
  from inj_on_cyclicRnd k have i: "inj_on (drawnId cyclicRnd) {..<randomCalls ?w}" by simp
  note t = preview_released_exactly_once[OF refl i]
  from t n have "count_list (revoked ?w) 0 = (if 0 \<in> set (previewsOf (files ?w)) then 0 else 1)"
    and "count_list (revoked ?w) 1 = (if 1 \<in> set (previewsOf (files ?w)) then 0 else 1)"
    by simp_all
  with p have c: "count_list (revoked ?w) 0 = 1" "count_list (revoked ?w) 1 = 0" by simp_all
  from t have "files (clearAllFiles ?w) = []"
    and "revoked (clearAllFiles ?w) = revoked ?w @ previewsOf (files ?w)" by blast+
  with p r have e: "files (clearAllFiles ?w) = []" "revoked (clearAllFiles ?w) = [0, 1]"
    by simp_all
  from inj_on_cyclicRnd cyclicRnd_repeats k n p c e show ?thesis by (intro conjI)
qed

text \<open>
  C7 as stated fails when two staged entries share an id: removing that id drops both
  entries and revokes the preview of the first only, so a URL that was allocated is never
  released.
\<close>

theorem preview_leak_counterexample:
  "map preview (files (fold (step collidingRnd) [AddFiles [aTxt, bPng]] initialWorld)) =
     [None, Some 0] \<and>
   nextUrl (fold (step collidingRnd) collidingTrace initialWorld) = 1 \<and>
   files (fold (step collidingRnd) collidingTrace initialWorld) = [] \<and>
   count_list (revoked (fold (step collidingRnd) collidingTrace initialWorld)) 0 = 0"
proof -
  have a: "fold (step collidingRnd) [AddFiles [aTxt, bPng]] initialWorld = stagedCollided"
    by (simp add: stagedCollided_def)
  show ?thesis
    unfolding a collidingTrace_eq by (simp add: stagedCollided_eq) (simp add: initialWorld_def)
qed

subsection \<open>Progress, frame and duplicate names\<close>

text \<open>
  C8 (as amended). For a build over a non-empty list of \<open>n\<close> files, the values passed to
  \<open>setZipProgress\<close> are determined by the first call that throws. When every \<open>zip.file\<close> call
  and \<open>generateAsync\<close> succeed they are exactly 0, the \<open>n\<close> checkpoints \<open>(i + 1) / n * 50\<close> for
  \<open>i = 0 .. n - 1\<close>, 75, 100 and 0, whether \<open>saveAs\<close> throws or not. When \<open>generateAsync\<close>
  rejects, 100 is never set: 0, the checkpoints, 75 and 0. When \<open>zip.file\<close> throws first on
  the file of index \<open>k\<close>: 0, the first \<open>k\<close> checkpoints and 0. The checkpoints are the
  doubles that the division and the multiplication return; they are strictly increasing
  (the length of an array is below \<open>2 ^ 32\<close>) and the last one is 50. In every case the
  progress ends at 0.
\<close>

theorem createZip_progress_sequence:
  assumes "files w \<noteq> []"
  shows "(addsSucceed e (files w) \<and> generateThrows e (containerOf (files w)) = None \<longrightarrow>
            progressLog (snd (createZip e w)) =
              progressLog w @ [0] @
              map (\<lambda>i. fmul (fdiv (of_nat (i + 1)) (of_nat (length (files w)))) 50)
                [0..<length (files w)] @
              [75, 100, 0]) \<and>
         (addsSucceed e (files w) \<and> generateThrows e (containerOf (files w)) \<noteq> None \<longrightarrow>
            progressLog (snd (createZip e w)) =
              progressLog w @ [0] @
              map (\<lambda>i. fmul (fdiv (of_nat (i + 1)) (of_nat (length (files w)))) 50)
                [0..<length (files w)] @
              [75, 0]) \<and>
         (\<forall>k. k < length (files w) \<and>
              (\<forall>j<k. fileThrows e (name (item_file (files w ! j))) (item_file (files w ! j)) = None) \<and>
              fileThrows e (name (item_file (files w ! k))) (item_file (files w ! k)) \<noteq> None \<longrightarrow>
            progressLog (snd (createZip e w)) =
              progressLog w @ [0] @
              map (\<lambda>i. fmul (fdiv (of_nat (i + 1)) (of_nat (length (files w)))) 50) [0..<k] @
              [0]) \<and>
         (length (files w) < 2 ^ 32 \<longrightarrow>
            sorted_wrt (<)
              (map (\<lambda>i. fmul (fdiv (of_nat (i + 1)) (of_nat (length (files w)))) 50)
                 [0..<length (files w)])) \<and>
         last (map (\<lambda>i. fmul (fdiv (of_nat (i + 1)) (of_nat (length (files w)))) 50)
                 [0..<length (files w)]) = 50 \<and>
         zipProgress (snd (createZip e w)) = 0"
proof -
  let ?n = "length (files w)"
  have ck: "(\<lambda>i. fmul (fdiv (of_nat (i + 1)) (of_nat ?n)) 50) = checkpoint ?n"
    by (rule ext) (simp add: checkpoint_def)
  from assms have n: "0 < ?n" by simp
  have a: "addsSucceed e (files w) \<and> generateThrows e (containerOf (files w)) = None \<longrightarrow>
      progressLog (snd (createZip e w)) =
        progressLog w @ [0] @ map (checkpoint ?n) [0..<?n] @ [75, 100, 0]"
    using assms by (simp add: createZip_generated)
  have b: "addsSucceed e (files w) \<and> generateThrows e (containerOf (files w)) \<noteq> None \<longrightarrow>
      progressLog (snd (createZip e w)) =
        progressLog w @ [0] @ map (checkpoint ?n) [0..<?n] @ [75, 0]"
    using assms by (auto simp: createZip_generate_fails)
  have t: "\<forall>k. k < ?n \<and>
              (\<forall>j<k. fileThrows e (name (item_file (files w ! j))) (item_file (files w ! j)) = None) \<and>
              fileThrows e (name (item_file (files w ! k))) (item_file (files w ! k)) \<noteq> None \<longrightarrow>
            progressLog (snd (createZip e w)) =
              progressLog w @ [0] @ map (checkpoint ?n) [0..<k] @ [0]"
    by (auto simp: createZip_add_throws)
  have c: "?n < 2 ^ 32 \<longrightarrow> sorted_wrt (<) (map (checkpoint ?n) [0..<?n])"
    by (simp add: checkpoints_increasing)
  have d: "last (map (checkpoint ?n) [0..<?n]) = 50"
    using n checkpoint_last[OF n] by (simp add: last_map)
  have z: "zipProgress (snd (createZip e w)) = 0"
    using assms by (simp add: createZip_def setZipProgress_def Let_def split: prod.splits)
  from a b t c d z show ?thesis unfolding ck by blast
qed


theorem createZip_progress_sequence_witness:
  "files stagedThree \<noteq> [] \<and> length (files stagedThree) < 2 ^ 32 \<and>
   addsSucceed (calmEnv sampleDate) (files stagedThree) \<and>
   generateThrows (calmEnv sampleDate) (containerOf (files stagedThree)) = None \<and>
   progressLog (snd (createZip (calmEnv sampleDate) stagedThree)) =
     [0, 2345624805922133 / 140737488355328, 2345624805922133 / 70368744177664, 50, 75, 100, 0] \<and>
   addsSucceed (saveFailsEnv sampleDate) (files stagedThree) \<and>
   generateThrows (saveFailsEnv sampleDate) (containerOf (files stagedThree)) = None \<and>
   saveAsThrows (saveFailsEnv sampleDate) (blobOf (files stagedThree)) (zipFileName sampleDate) \<noteq> None \<and>
   progressLog (snd (createZip (saveFailsEnv sampleDate) stagedThree)) =
     [0, 2345624805922133 / 140737488355328, 2345624805922133 / 70368744177664, 50, 75, 100, 0] \<and>
   addsSucceed (unreadableEnv sampleDate) (files stagedThree) \<and>
   generateThrows (unreadableEnv sampleDate) (containerOf (files stagedThree)) \<noteq> None \<and>
   progressLog (snd (createZip (unreadableEnv sampleDate) stagedThree)) =
     [0, 2345624805922133 / 140737488355328, 2345624805922133 / 70368744177664, 50, 75, 0] \<and>
   fileThrows (addFailsEnv sampleDate) (name (item_file (files stagedThree ! 0)))
     (item_file (files stagedThree ! 0)) = None \<and>
   fileThrows (addFailsEnv sampleDate) (name (item_file (files stagedThree ! 1)))
     (item_file (files stagedThree ! 1)) \<noteq> None \<and>
   progressLog (snd (createZip (addFailsEnv sampleDate) stagedThree)) =
     [0, 2345624805922133 / 140737488355328, 0] \<and>
   sorted_wrt (<)
     [2345624805922133 / 140737488355328, 2345624805922133 / 70368744177664, 50 :: rat] \<and>
   zipProgress (snd (createZip (calmEnv sampleDate) stagedThree)) = 0"
proof -
  have ne: "files stagedThree \<noteq> []" by (simp add: files_stagedThree)
  have ac: "addsSucceed (calmEnv sampleDate) (files stagedThree)"
    by (simp add: addsSucceed_def calmEnv_def)
  have gc: "generateThrows (calmEnv sampleDate) (containerOf (files stagedThree)) = None"
    by (simp add: calmEnv_def)
  have gs: "generateThrows (saveFailsEnv sampleDate) (containerOf (files stagedThree)) = None"
    by (simp add: saveFailsEnv_def)
  have ss: "saveAsThrows (saveFailsEnv sampleDate) (blobOf (files stagedThree))
      (zipFileName sampleDate) \<noteq> None"
    by (simp add: saveFailsEnv_def)
  have gu: "generateThrows (unreadableEnv sampleDate) (containerOf (files stagedThree)) \<noteq> None"
    by (simp add: unreadableEnv_def)
  have f0: "fileThrows (addFailsEnv sampleDate) (name (item_file (files stagedThree ! 0)))
      (item_file (files stagedThree ! 0)) = None"
    by (simp add: files_stagedThree addFailsEnv_def aTxt_def)
  have f1: "fileThrows (addFailsEnv sampleDate) (name (item_file (files stagedThree ! 1)))
      (item_file (files stagedThree ! 1)) \<noteq> None"
    by (simp add: files_stagedThree addFailsEnv_def bPng_def)
  have all0: "\<forall>j<1. fileThrows (addFailsEnv sampleDate) (name (item_file (files stagedThree ! j)))
      (item_file (files stagedThree ! j)) = None"
    using f0 by simp
  note calm = createZip_progress_sequence[OF ne, of "calmEnv sampleDate", folded checkpoint_def]
  note save = createZip_progress_sequence[OF ne, of "saveFailsEnv sampleDate", folded checkpoint_def]
  note unre = createZip_progress_sequence[OF ne, of "unreadableEnv sampleDate", folded checkpoint_def]
  note adds = createZip_progress_sequence[OF ne, of "addFailsEnv sampleDate", folded checkpoint_def,
      THEN conjunct2, THEN conjunct2, THEN conjunct1, THEN spec[where x = "1 :: nat"]]
  have l1: "progressLog (snd (createZip (calmEnv sampleDate) stagedThree)) =
      [0, 2345624805922133 / 140737488355328, 2345624805922133 / 70368744177664, 50, 75, 100, 0]"
    using calm ac gc
    by (simp add: length_stagedThree progressLog_stagedThree checkpoints_three del: upt_Suc)
  have l2: "progressLog (snd (createZip (saveFailsEnv sampleDate) stagedThree)) =
      [0, 2345624805922133 / 140737488355328, 2345624805922133 / 70368744177664, 50, 75, 100, 0]"
    using save adds_saveFails[of sampleDate "files stagedThree"] gs
    by (simp add: length_stagedThree progressLog_stagedThree checkpoints_three del: upt_Suc)
  have l3: "progressLog (snd (createZip (unreadableEnv sampleDate) stagedThree)) =
      [0, 2345624805922133 / 140737488355328, 2345624805922133 / 70368744177664, 50, 75, 0]"
    using unre adds_unreadable[of sampleDate "files stagedThree"] gu
    by (simp add: length_stagedThree progressLog_stagedThree checkpoints_three del: upt_Suc)
  have l4: "progressLog (snd (createZip (addFailsEnv sampleDate) stagedThree)) =
      [0, 2345624805922133 / 140737488355328, 0]"
  proof -
    from adds all0 f1
    have "progressLog (snd (createZip (addFailsEnv sampleDate) stagedThree)) =
        progressLog stagedThree @ [0] @ map (checkpoint 3) [0..<1] @ [0]"
      by (simp add: length_stagedThree del: upt_Suc One_nat_def)
    then show ?thesis
      by (simp only: checkpoints_three_first progressLog_stagedThree append.simps)
  qed
  have z: "zipProgress (snd (createZip (calmEnv sampleDate) stagedThree)) = 0"
    using calm by simp
  from ne ac gc gs ss gu f0 f1 l1 l2 l3 l4 z adds_saveFails[of sampleDate "files stagedThree"]
    adds_unreadable[of sampleDate "files stagedThree"]
  show ?thesis by (simp add: length_stagedThree)
qed

text \<open>
  C8 as stated fails for a build whose serialization fails: with one staged file and an
  unreadable file the sequence is 0, 50, 75, 0.
\<close>

theorem progress_on_failure_counterexample:
  "files stagedOne \<noteq> [] \<and>
   progressLog (snd (createZip (unreadableEnv sampleDate) stagedOne)) = [0, 50, 75, 0] \<and>
   progressLog (snd (createZip (unreadableEnv sampleDate) stagedOne)) \<noteq> [0, 50, 75, 100, 0]"
proof -
  have ne: "files stagedOne \<noteq> []" by (simp add: stagedOne_def oneFile_def)
  have g: "generateThrows (unreadableEnv sampleDate) (containerOf (files stagedOne)) =
      Some ''NotReadableError''"
    by (simp add: unreadableEnv_def)
  have l: "length (files stagedOne) = 1" by (simp add: stagedOne_def oneFile_def)
  have p: "progressLog stagedOne = []" by (simp add: stagedOne_def initialWorld_def)
  have u: "[0..<1] = [0 :: nat]" by simp
  have "progressLog (snd (createZip (unreadableEnv sampleDate) stagedOne)) = [0, 50, 75, 0]"
    unfolding createZip_generate_fails[OF ne adds_unreadable g] l p u
    by (simp only: list.map checkpoint_one append.simps) simp
  with ne show ?thesis by simp
qed

text \<open>
  C9. Whatever the environment does (so on success and on failure alike), \<open>createZip\<close>
  leaves the staging collection as it found it: the same entries in the same order, hence
  the same ids, previews and file contents. It neither allocates nor revokes an object URL.
\<close>

theorem createZip_never_mutates_staging:
  "files (snd (createZip e w)) = files w \<and>
   map item_id (files (snd (createZip e w))) = map item_id (files w) \<and>
   map preview (files (snd (createZip e w))) = map preview (files w) \<and>
   map (\<lambda>f. bytes (item_file f)) (files (snd (createZip e w))) =
     map (\<lambda>f. bytes (item_file f)) (files w) \<and>
   nextUrl (snd (createZip e w)) = nextUrl w \<and>
   revoked (snd (createZip e w)) = revoked w"
  using createZip_frame[of e w] by simp

text \<open>
  C10 (as amended). When two or more staged files share a name, a build in which no step
  throws downloads one archive whose number of entries is the number of distinct file names,
  fewer than the number of staged files, and the entry under each name holds the bytes of
  the last staged file with that name: adding under a name already present replaces the
  entry. A build in which a step throws downloads no archive.
\<close>

theorem createZip_overwrites_duplicates:
  assumes "\<not> distinct (map fileName (files w))"
  shows "(buildSucceeds e (files w) \<longrightarrow>
            (\<exists>blob fname.
               downloads (snd (createZip e w)) = downloads w @ [(blob, fname)] \<and>
               length (entries blob) = card (fileName ` set (files w)) \<and>
               length (entries blob) < length (files w) \<and>
               (\<forall>x \<in> set (files w).
                  extractEntry blob (fileName x) =
                    Some (bytes (item_file (last (filter (\<lambda>y. fileName y = fileName x) (files w)))))))) \<and>
         (\<not> buildSucceeds e (files w) \<longrightarrow> downloads (snd (createZip e w)) = downloads w)"
proof -
  from assms have ne: "files w \<noteq> []" by auto
  let ?blob = "blobOf (files w)"
  have p: "length (entries ?blob) = card (fileName ` set (files w)) \<and>
           length (entries ?blob) < length (files w) \<and>
           (\<forall>x \<in> set (files w).
               extractEntry ?blob (fileName x) =
                 Some (bytes (item_file (last (filter (\<lambda>y. fileName y = fileName x) (files w))))))"
    using card_names_less[OF assms]
    by (simp add: extractEntry_blobOf) (simp add: blobOf_def length_containerOf)
  show ?thesis
  proof (cases "buildSucceeds e (files w)")
    case True
    with ne p show ?thesis by (simp add: createZip_success)
  next
    case False
    with ne createZip_failure_downloads[of w e] show ?thesis by simp
  qed
qed

theorem createZip_overwrites_duplicates_witness:
  "\<not> distinct (map fileName (files stagedSameName)) \<and>
   buildSucceeds (calmEnv sampleDate) (files stagedSameName) \<and>
   length (files stagedSameName) = 2 \<and>
   (\<exists>blob fname.
      downloads (snd (createZip (calmEnv sampleDate) stagedSameName)) = [(blob, fname)] \<and>
      length (entries blob) = 1 \<and>
      extractEntry blob ''a.txt'' = Some [98, 121, 101]) \<and>
   \<not> buildSucceeds (unreadableEnv sampleDate) (files stagedSameName) \<and>
   downloads (snd (createZip (unreadableEnv sampleDate) stagedSameName)) = []"
proof -
  have nd: "\<not> distinct (map fileName (files stagedSameName))"
    by (simp add: stagedSameName_def twoSameName_def fileName_def)
  have nb: "\<not> buildSucceeds (unreadableEnv sampleDate) (files stagedSameName)"
    by (simp add: buildSucceeds_def unreadableEnv_def)
  have l: "length (files stagedSameName) = 2" by (simp add: stagedSameName_def twoSameName_def)
  have f: "downloads (snd (createZip (unreadableEnv sampleDate) stagedSameName)) = []"
    using createZip_overwrites_duplicates[OF nd, of "unreadableEnv sampleDate"] nb
    by (simp add: stagedSameName_def initialWorld_def)
  from createZip_overwrites_duplicates[OF nd, of "calmEnv sampleDate"] buildSucceeds_calm
  obtain blob fname where
    r: "downloads (snd (createZip (calmEnv sampleDate) stagedSameName)) =
          downloads stagedSameName @ [(blob, fname)]"
       "length (entries blob) = card (fileName ` set (files stagedSameName))"
       "\<forall>x \<in> set (files stagedSameName).
          extractEntry blob (fileName x) =
            Some (bytes (item_file (last (filter (\<lambda>y. fileName y = fileName x) (files stagedSameName)))))"
    by blast
  from r(1) have 1: "downloads (snd (createZip (calmEnv sampleDate) stagedSameName)) = [(blob, fname)]"
    by (simp add: stagedSameName_def initialWorld_def)
  from r(2) have 2: "length (entries blob) = 1"
    by (simp add: stagedSameName_def twoSameName_def fileName_def)
  from r(3) have 3: "extractEntry blob ''a.txt'' = Some [98, 121, 101]"
    by (simp add: stagedSameName_def twoSameName_def fileName_def)
  from nd nb l f 1 2 3 buildSucceeds_calm show ?thesis by blast
qed

text \<open>
  C10 as stated fails for a build whose serialization fails: with two staged files of the
  same name and an unreadable file, no archive is downloaded.
\<close>

theorem createZip_duplicates_failure_counterexample:
  "\<not> distinct (map fileName (files stagedSameName)) \<and>
   downloads stagedSameName = [] \<and>
   downloads (snd (createZip (unreadableEnv sampleDate) stagedSameName)) = []"
proof -
  have ne: "files stagedSameName \<noteq> []" by (simp add: stagedSameName_def twoSameName_def)
  have nb: "\<not> buildSucceeds (unreadableEnv sampleDate) (files stagedSameName)"
    by (simp add: buildSucceeds_def unreadableEnv_def)
  have nd: "\<not> distinct (map fileName (files stagedSameName))"
    by (simp add: stagedSameName_def twoSameName_def fileName_def)
  have d0: "downloads stagedSameName = []" by (simp add: stagedSameName_def initialWorld_def)
  from createZip_failure_downloads[OF ne nb] nd d0 show ?thesis by simp
qed

end
